theory Spec2Isabelle
  imports Main "HOL-Library.Signed_Division"
begin

section \<open>The rules engine of \<open>gi_tcg.cc\<close>: data model\<close>

text \<open>
  The engine is the three-player bidding and trick-taking state machine of
  \<open>src/open_spiel/games/gi_tcg/gi_tcg.cc\<close>.  Players and action ids are C++ \<open>int\<close>s and
  are modelled as \<open>int\<close>; \<open>std::array\<close> and \<open>std::vector\<close> members are lists, and every
  indexing the source performs is guarded: an index outside the list is the error value
  \<open>OutOfBounds\<close> (undefined behaviour in C++), a failed \<open>SPIEL_CHECK\<close> is
  \<open>SpielCheckFailed\<close>, and \<open>SpielFatalError\<close> is itself.  The remainder \<open>%\<close> of C++
  truncates towards zero and is written \<open>smod\<close>.
\<close>

datatype error = SpielFatalError | SpielCheckFailed | OutOfBounds | SignedOverflow | NotLegal

datatype Phase = kDeal | kAuction | kPlay | kGameOver

text \<open>The class \<open>Trick\<close>; its two-argument constructor is lines 679-680 of the source.\<close>

record Trick =
  winning_action :: int
  leader :: int
  winning_player :: int

definition Trick_ctor :: "int \<Rightarrow> int \<Rightarrow> Trick" where
  "Trick_ctor ldr action = \<lparr>winning_action = action, leader = ldr, winning_player = ldr\<rparr>"

text \<open>
  Modelled from the spec: the accessors of \<open>Trick\<close> are declared in the header
  \<open>gi_tcg/gi_tcg.h\<close>, which is not among the sources.  \<open>Winner\<close> and \<open>WinningAction\<close>
  read the fields of the same name; \<open>Play\<close> "updates winning_action/winning_player to
  this play" (section 4.4).
\<close>

definition Winner :: "Trick \<Rightarrow> int" where
  "Winner t = winning_player t"

definition WinningAction :: "Trick \<Rightarrow> int" where
  "WinningAction t = winning_action t"

definition Trick_Play :: "Trick \<Rightarrow> int \<Rightarrow> int \<Rightarrow> Trick" where
  "Trick_Play t player action = t\<lparr>winning_action := action, winning_player := player\<rparr>"

text \<open>
  The constants, tables and helpers that \<open>gi_tcg.cc\<close> uses but that are declared in the
  missing headers (\<open>gi_tcg.h\<close>, \<open>gi_tcg_utils.h\<close> of the same directory, and the host
  framework) are parameters of the model: the sizes of the deck, of the leftover block
  and of the rank vector, the highest bid, the bases of the action-id bands, the two
  sentinels, the card codec \<open>CardToRank\<close>, the decoder \<open>ActionToHand\<close>, the
  enumerator \<open>SearchForLegalActions\<close> (as the list of ids it appends to its output
  vector) and the value of the default constructor \<open>Trick()\<close>.
\<close>

record params =
  kNumCards :: int
  kNumCardsLeftOver :: int
  kNumRanks :: int
  kNumBids :: int
  kDealingActionBase :: int
  kBiddingActionBase :: int
  kPass :: int
  kBombActionBase :: int
  kInvalidPlayer :: int
  kInvalidAction :: int
  CardToRank :: "int \<Rightarrow> int"
  ActionToHand :: "int \<Rightarrow> int list"
  SearchForLegalActions :: "int list \<Rightarrow> int \<Rightarrow> int list"
  default_Trick :: Trick

text \<open>
  Modelled from the spec: \<open>kNumPlayers\<close> is declared in the missing header; the spec
  fixes "exactly 3 seats, indexed 0-2", and \<open>ScoreUp\<close> writes the literal 3.
\<close>

definition kNumPlayers :: int where
  "kNumPlayers = 3"

text \<open>
  The members of \<open>GITCGState\<close>, without the trailing underscore of the source.
  \<open>history\<close> is the host framework's list of applied actions (only the action of each
  entry is ever read by the engine).  \<open>returns\<close> is a \<open>std::vector<double>\<close> that only
  ever receives \<open>int\<close> values, so it is a list of integers here.
\<close>

record GITCGState =
  history :: "int list"
  num_passes :: int
  winning_bid :: int
  trick_played :: int
  num_played :: int
  card_face_up_position :: int
  card_rank_face_up :: int
  new_trick_begin :: bool
  current_player :: int
  first_player :: int
  dizhu :: int
  final_winner :: int
  phase :: Phase
  dealer_deck :: "int list"
  played_deck :: "int list"
  tricks :: "Trick list"
  bombs_played :: int
  players_hands_played :: "int list"
  cards_left_over :: "int list"
  holds :: "int list list"
  returns :: "int list"

text \<open>
  Modelled from the spec: the member initialisers are in the missing header.  The
  constructor (line 265) fills the pool with one copy of each card; the sentinels are
  the ones the code tests (\<open>card_face_up_position_ == -1\<close>, \<open>dizhu_ == kInvalidPlayer\<close>);
  the counters, the winning bid and the returns start at 0 and the phase at Deal
  (sections 3 and 4 of the spec).
\<close>

definition NewInitialState :: "params \<Rightarrow> GITCGState" where
  "NewInitialState P =
     \<lparr>history = [], num_passes = 0, winning_bid = 0, trick_played = 0, num_played = 0,
      card_face_up_position = - 1, card_rank_face_up = kInvalidAction P,
      new_trick_begin = False, current_player = kInvalidPlayer P,
      first_player = kInvalidPlayer P, dizhu = kInvalidPlayer P,
      final_winner = kInvalidPlayer P, phase = kDeal,
      dealer_deck = replicate (nat (kNumCards P)) 1,
      played_deck = replicate (nat (kNumRanks P)) 0, tricks = [], bombs_played = 0,
      players_hands_played = replicate 3 0, cards_left_over = [],
      holds = replicate 3 (replicate (nat (kNumRanks P)) 0), returns = replicate 3 0\<rparr>"

subsection \<open>Array helpers\<close>

definition in_range :: "int \<Rightarrow> nat \<Rightarrow> bool" where
  "in_range i n = (0 \<le> i \<and> i < int n)"

definition incr2 :: "int list list \<Rightarrow> nat \<Rightarrow> nat \<Rightarrow> int list list" where
  "incr2 h p r = h[p := (h ! p)[r := h ! p ! r + 1]]"

definition hand_total :: "int list list \<Rightarrow> int" where
  "hand_total h = sum_list (map sum_list h)"

definition int32 :: "int \<Rightarrow> bool" where
  "int32 x = (- (2 ^ 31) \<le> x \<and> x < 2 ^ 31)"

definition advance :: "GITCGState \<Rightarrow> GITCGState" where
  "advance s = s\<lparr>current_player := (current_player s + 1) smod kNumPlayers\<rparr>"

text \<open>
  Modelled from the spec: \<open>CurrentTrick()\<close> is declared in the missing header.  It is
  "the current trick", the one open trick: the entry of \<open>tricks_\<close> at index
  \<open>trick_played_\<close>, the number of tricks closed so far.
\<close>

definition CurrentTrick :: "GITCGState \<Rightarrow> error + Trick" where
  "CurrentTrick s =
     (if in_range (trick_played s) (length (tricks s))
      then Inr (tricks s ! nat (trick_played s)) else Inl OutOfBounds)"

section \<open>Settlement: \<open>ScoreUp\<close> (lines 659-677)\<close>

definition is_spring :: "GITCGState \<Rightarrow> bool" where
  "is_spring s =
     (players_hands_played s ! nat (dizhu s) = 1 \<or>
      (players_hands_played s ! nat ((dizhu s + 1) smod 3) = 0 \<and>
       players_hands_played s ! nat ((dizhu s + 2) smod 3) = 0))"

text \<open>
  The doubling loop \<open>for (int i = 0; i < is_spring + bombs_played_; ++i) paying *= 2\<close>.
  A product that leaves the range of a 32-bit \<open>int\<close> is undefined behaviour in C++ and
  the error \<open>SignedOverflow\<close> here.
\<close>

function paying_loop :: "int \<Rightarrow> int \<Rightarrow> int \<Rightarrow> error + int" where
  "paying_loop i n paying =
     (if i < n
      then (if int32 (paying * 2) then paying_loop (i + 1) n (paying * 2)
            else Inl SignedOverflow)
      else Inr paying)"
  by pat_completeness auto
termination
  by (relation "measure (\<lambda>(i, n, paying). nat (n - i))") auto

declare paying_loop.simps [simp del]

definition ScoreUp :: "params \<Rightarrow> GITCGState \<Rightarrow> error + GITCGState" where
  "ScoreUp P s =
     (if dizhu s = kInvalidPlayer P then Inr s
      else if \<not> (in_range (dizhu s) (length (players_hands_played s)) \<and>
                  in_range (dizhu s) (length (returns s)) \<and>
                  length (players_hands_played s) = 3 \<and> length (returns s) = 3)
      then Inl OutOfBounds
      else
        case paying_loop 0 (of_bool (is_spring s) + bombs_played s) (winning_bid s) of
          Inl e \<Rightarrow> Inl e
        | Inr paying \<Rightarrow>
            let dizhu_sign = (if final_winner s = dizhu s then 1 else - 1 :: int) in
            if \<not> int32 (dizhu_sign * 2 * paying) then Inl SignedOverflow
            else
              let r1 = (returns s)[nat (dizhu s) := dizhu_sign * 2 * paying];
                  r2 = r1[nat ((dizhu s + 1) smod 3) := - dizhu_sign * paying];
                  r3 = r2[nat ((dizhu s + 2) smod 3) := - dizhu_sign * paying]
              in Inr (s\<lparr>returns := r3\<rparr>))"

section \<open>Dealing (lines 467-480 and 537-565)\<close>

function DealLegalActions_slots :: "params \<Rightarrow> nat \<Rightarrow> int list" where
  "DealLegalActions_slots P i =
     (if int i < kDealingActionBase P then int i # DealLegalActions_slots P (i + 1) else [])"
  by pat_completeness auto
termination
  by (relation "measure (\<lambda>(P, i). nat (kDealingActionBase P) - i)") auto

declare DealLegalActions_slots.simps [simp del]

function DealLegalActions_cards :: "params \<Rightarrow> int list \<Rightarrow> nat \<Rightarrow> int list" where
  "DealLegalActions_cards P deck i =
     (if int i < kNumCards P \<and> i < length deck
      then (if deck ! i \<noteq> 0 then [int i + kDealingActionBase P] else []) @
           DealLegalActions_cards P deck (i + 1)
      else [])"
  by pat_completeness auto
termination
  by (relation "measure (\<lambda>(P, deck, i). length deck - i)") auto

declare DealLegalActions_cards.simps [simp del]

definition DealLegalActions :: "params \<Rightarrow> GITCGState \<Rightarrow> error + int list" where
  "DealLegalActions P s =
     (if card_face_up_position s = - 1 then Inr (DealLegalActions_slots P 0)
      else if length (dealer_deck s) \<noteq> nat (kNumCards P) then Inl OutOfBounds
      else Inr (DealLegalActions_cards P (dealer_deck s) 0))"

text \<open>The loop of lines 560-563: the ranks of the cards still in the pool, in card order.\<close>

function left_over_loop :: "params \<Rightarrow> int list \<Rightarrow> nat \<Rightarrow> int list" where
  "left_over_loop P deck card_id =
     (if int card_id < kNumCards P \<and> card_id < length deck
      then (if deck ! card_id \<noteq> 0 then [CardToRank P (int card_id)] else []) @
           left_over_loop P deck (card_id + 1)
      else [])"
  by pat_completeness auto
termination
  by (relation "measure (\<lambda>(P, deck, card_id). length deck - card_id)") auto

declare left_over_loop.simps [simp del]

text \<open>The state after lines 544-554 of a deal: the first player is recorded when the
  face-up slot is reached, the card goes to the hand of the seat whose turn it is, and
  it leaves the pool.\<close>

definition dealt_state :: "params \<Rightarrow> GITCGState \<Rightarrow> int \<Rightarrow> GITCGState" where
  "dealt_state P s a =
     (let dealing_round = int (length (history s)) - 1;
          s1 = (if dealing_round = history s ! 0
                then s\<lparr>first_player := dealing_round smod kNumPlayers,
                       card_rank_face_up := CardToRank P (a - kDealingActionBase P)\<rparr>
                else s)
      in s1\<lparr>holds := incr2 (holds s1) ((length (history s) - 1) mod 3)
                         (nat (CardToRank P (a - kDealingActionBase P))),
             dealer_deck := (dealer_deck s1)[nat (a - kDealingActionBase P) :=
                               dealer_deck s1 ! nat (a - kDealingActionBase P) - 1]\<rparr>)"

definition ApplyDealAction :: "params \<Rightarrow> GITCGState \<Rightarrow> int \<Rightarrow> error + GITCGState" where
  "ApplyDealAction P s action =
     (if card_face_up_position s = - 1 then Inr (s\<lparr>card_face_up_position := action\<rparr>)
      else if history s = [] then Inl OutOfBounds
      else
        let dealing_round = int (length (history s)) - 1;
            s1 = (if dealing_round = history s ! 0
                  then s\<lparr>first_player := dealing_round smod kNumPlayers,
                         card_rank_face_up := CardToRank P (action - kDealingActionBase P)\<rparr>
                  else s);
            dealt_player_idx = (length (history s) - 1) mod 3;
            dealt_rank = CardToRank P (action - kDealingActionBase P);
            card_id = action - kDealingActionBase P
        in
          if \<not> (dealt_player_idx < length (holds s1) \<and>
                 in_range dealt_rank (length (holds s1 ! dealt_player_idx)) \<and>
                 in_range card_id (length (dealer_deck s1)) \<and>
                 length (dealer_deck s1) = nat (kNumCards P))
          then Inl OutOfBounds
          else
            let s2 = s1\<lparr>holds := incr2 (holds s1) dealt_player_idx (nat dealt_rank)\<rparr>;
                s3 = s2\<lparr>dealer_deck :=
                          (dealer_deck s2)[nat card_id := dealer_deck s2 ! nat card_id - 1]\<rparr>
            in
              if int (length (history s3)) = kNumCards P - kNumCardsLeftOver P
              then
                let s4 = s3\<lparr>phase := kAuction, current_player := first_player s3\<rparr> in
                if \<not> (0 \<le> current_player s4 \<and> current_player s4 \<le> kNumPlayers)
                then Inl SpielCheckFailed
                else Inr (s4\<lparr>cards_left_over :=
                               cards_left_over s4 @ left_over_loop P (dealer_deck s4) 0\<rparr>)
              else Inr s3)"

section \<open>The auction (lines 482-490 and 567-598)\<close>

function BiddingLegalActions_loop :: "params \<Rightarrow> int \<Rightarrow> int list" where
  "BiddingLegalActions_loop P bid =
     (if bid \<le> kNumBids P
      then (kBiddingActionBase P + bid) # BiddingLegalActions_loop P (bid + 1)
      else [])"
  by pat_completeness auto
termination
  by (relation "measure (\<lambda>(P, bid). nat (kNumBids P + 1 - bid))") auto

declare BiddingLegalActions_loop.simps [simp del]

definition BiddingLegalActions :: "params \<Rightarrow> GITCGState \<Rightarrow> int list" where
  "BiddingLegalActions P s = kPass P # BiddingLegalActions_loop P (winning_bid s + 1)"

text \<open>
  The loop of lines 588-589, \<open>holds_[dizhu_][cards_left_over_[i]]++\<close> for
  \<open>i < kNumCardsLeftOver\<close>.
\<close>

function give_left_over :: "params \<Rightarrow> GITCGState \<Rightarrow> nat \<Rightarrow> error + GITCGState" where
  "give_left_over P s i =
     (if int i < kNumCardsLeftOver P
      then
        (if \<not> (i < length (cards_left_over s) \<and> in_range (dizhu s) (length (holds s)))
         then Inl OutOfBounds
         else if \<not> in_range (cards_left_over s ! i) (length (holds s ! nat (dizhu s)))
         then Inl OutOfBounds
         else give_left_over P
                (s\<lparr>holds := incr2 (holds s) (nat (dizhu s)) (nat (cards_left_over s ! i))\<rparr>)
                (i + 1))
      else Inr s)"
  by pat_completeness auto
termination
  by (relation "measure (\<lambda>(P, s, i). nat (kNumCardsLeftOver P) - i)") auto

declare give_left_over.simps [simp del]

text \<open>The assignments of lines 590-594, which open the play phase.\<close>

definition finalize_auction :: "params \<Rightarrow> GITCGState \<Rightarrow> GITCGState" where
  "finalize_auction P s3 =
     s3\<lparr>phase := kPlay, current_player := dizhu s3, new_trick_begin := True,
        tricks := tricks s3 @ [Trick_ctor (dizhu s3) (kInvalidAction P)], num_passes := 0\<rparr>"

text \<open>
  \<open>ApplyBiddingAction(int action)\<close>.  The difference \<open>action - kBiddingActionBase\<close> of
  line 584 is computed in \<open>int\<close>: where it leaves the range of a 32-bit \<open>int\<close> the
  behaviour is undefined, which the model reports as \<open>SignedOverflow\<close>.
\<close>

definition ApplyBiddingAction :: "params \<Rightarrow> GITCGState \<Rightarrow> int \<Rightarrow> error + GITCGState" where
  "ApplyBiddingAction P s action =
     (if action \<noteq> kPass P \<and> \<not> int32 (action - kBiddingActionBase P) then Inl SignedOverflow
      else
       (let s1 = (if action = kPass P then s\<lparr>num_passes := num_passes s + 1\<rparr>
                  else s\<lparr>num_passes := 0\<rparr>);
            (s2, has_winner) =
              (if action = kPass P
               then (if num_passes s1 = kNumPlayers then (s1\<lparr>phase := kGameOver\<rparr>, False)
                     else if num_passes s1 = kNumPlayers - 1 \<and> 0 < winning_bid s1
                     then (s1, True)
                     else (s1, False))
               else
                 (let s' = s1\<lparr>dizhu := current_player s1,
                               winning_bid := action - kBiddingActionBase P\<rparr>
                  in (s', winning_bid s' = kNumBids P)))
        in
          if has_winner
          then
            (case give_left_over P s2 0 of
               Inl e \<Rightarrow> Inl e
             | Inr s3 \<Rightarrow> Inr (finalize_auction P s3))
          else Inr (advance s2)))"

section \<open>Play (lines 492-503 and 600-647)\<close>

definition PlayLegalActions :: "params \<Rightarrow> GITCGState \<Rightarrow> error + int list" where
  "PlayLegalActions P s =
     (let legal_actions = (if \<not> new_trick_begin s then [kPass P] else []) in
      if \<not> in_range (current_player s) (length (holds s)) then Inl OutOfBounds
      else
        case CurrentTrick s of
          Inl e \<Rightarrow> Inl e
        | Inr t \<Rightarrow>
            Inr (sort (legal_actions @
                       SearchForLegalActions P (holds s ! nat (current_player s))
                         (WinningAction t))))"

text \<open>
  The loop of \<open>AfterPlayHand\<close> over the ranks; the flag is the accumulated
  \<open>flag &= !holds_[player][rank]\<close>.
\<close>

function AfterPlayHand_loop ::
  "params \<Rightarrow> nat \<Rightarrow> int list \<Rightarrow> nat \<Rightarrow> bool \<Rightarrow> GITCGState \<Rightarrow> error + (GITCGState \<times> bool)" where
  "AfterPlayHand_loop P player used_hand rank flag s =
     (if int rank < kNumRanks P
      then
        (if \<not> (rank < length (holds s ! player) \<and> rank < length used_hand \<and>
                rank < length (played_deck s))
         then Inl OutOfBounds
         else if \<not> (used_hand ! rank \<le> holds s ! player ! rank) then Inl SpielCheckFailed
         else
           let s1 = s\<lparr>holds := (holds s)[player :=
                        (holds s ! player)[rank := holds s ! player ! rank - used_hand ! rank]]\<rparr>;
               flag1 = (flag \<and> holds s1 ! player ! rank = 0);
               s2 = s1\<lparr>played_deck :=
                         (played_deck s1)[rank := played_deck s1 ! rank + used_hand ! rank]\<rparr>
           in AfterPlayHand_loop P player used_hand (rank + 1) flag1 s2)
      else Inr (s, flag))"
  by pat_completeness auto
termination
  by (relation "measure (\<lambda>(P, player, used_hand, rank, flag, s). nat (kNumRanks P) - rank)") auto

declare AfterPlayHand_loop.simps [simp del]

definition AfterPlayHand :: "params \<Rightarrow> GITCGState \<Rightarrow> int \<Rightarrow> int \<Rightarrow> error + (GITCGState \<times> bool)" where
  "AfterPlayHand P s player action =
     (if \<not> in_range player (length (holds s)) then Inl OutOfBounds
      else AfterPlayHand_loop P (nat player) (ActionToHand P action) 0 True s)"

text \<open>The state after lines 613-636 of a play other than Pass: the counters, the
  bomb count, the hand count of the acting seat, the flag and the open trick \<open>t\<close> are
  updated; the cards are not yet taken from the hand.\<close>

definition played_state :: "params \<Rightarrow> GITCGState \<Rightarrow> int \<Rightarrow> Trick \<Rightarrow> GITCGState" where
  "played_state P s a t =
     s\<lparr>num_played := num_played s + 1, num_passes := 0,
       bombs_played := (if kBombActionBase P \<le> a then bombs_played s + 1 else bombs_played s),
       players_hands_played :=
         (players_hands_played s)[nat (current_player s) :=
            players_hands_played s ! nat (current_player s) + 1],
       new_trick_begin := False,
       tricks := (tricks s)[nat (trick_played s) := Trick_Play t (current_player s) a]\<rparr>"

definition ApplyPlayAction :: "params \<Rightarrow> GITCGState \<Rightarrow> int \<Rightarrow> error + GITCGState" where
  "ApplyPlayAction P s action =
     (let s0 = s\<lparr>num_played := num_played s + 1\<rparr>;
          s1 = (if action = kPass P then s0\<lparr>num_passes := num_passes s0 + 1\<rparr>
                else s0\<lparr>num_passes := 0\<rparr>)
      in
        if action = kPass P
        then
          (if num_passes s1 = kNumPlayers - 1
           then
             (case CurrentTrick s1 of
                Inl e \<Rightarrow> Inl e
              | Inr t \<Rightarrow>
                  Inr (s1\<lparr>current_player := Winner t,
                          trick_played := trick_played s1 + 1,
                          num_passes := 0,
                          tricks := tricks s1 @ [default_Trick P],
                          new_trick_begin := True\<rparr>))
           else Inr (advance s1))
        else
          (let s2 = (if kBombActionBase P \<le> action
                     then s1\<lparr>bombs_played := bombs_played s1 + 1\<rparr> else s1)
           in
             if \<not> in_range (current_player s2) (length (players_hands_played s2))
             then Inl OutOfBounds
             else
               let s3 = s2\<lparr>players_hands_played :=
                            (players_hands_played s2)[nat (current_player s2) :=
                               players_hands_played s2 ! nat (current_player s2) + 1]\<rparr>;
                   s4 = (if new_trick_begin s3 then s3\<lparr>new_trick_begin := False\<rparr> else s3)
               in
                 (case CurrentTrick s4 of
                    Inl e \<Rightarrow> Inl e
                  | Inr t \<Rightarrow>
                      let s5 = s4\<lparr>tricks := (tricks s4)[nat (trick_played s4) :=
                                    Trick_Play t (current_player s4) action]\<rparr>
                      in
                        (case AfterPlayHand P s5 (current_player s5) action of
                           Inl e \<Rightarrow> Inl e
                         | Inr (s6, all_played) \<Rightarrow>
                             if all_played
                             then
                               (case ScoreUp P (s6\<lparr>final_winner := current_player s6\<rparr>) of
                                  Inl e \<Rightarrow> Inl e
                                | Inr s7 \<Rightarrow> Inr (s7\<lparr>phase := kGameOver\<rparr>))
                             else Inr (advance s6)))))"

section \<open>Dispatch (lines 454-465 and 524-535)\<close>

definition LegalActions :: "params \<Rightarrow> GITCGState \<Rightarrow> error + int list" where
  "LegalActions P s =
     (case phase s of
        kDeal \<Rightarrow> DealLegalActions P s
      | kAuction \<Rightarrow> Inr (BiddingLegalActions P s)
      | kPlay \<Rightarrow> PlayLegalActions P s
      | kGameOver \<Rightarrow> Inr [])"

text \<open>
  \<open>DoApplyAction(Action action)\<close> hands the id to the handler of the phase, and the three
  handlers take an \<open>int\<close>.  The \<open>action\<close> of the model is this \<open>int\<close>: on the ids in the
  range of a 32-bit \<open>int\<close> (\<open>int32\<close>) the conversion at the call is the identity and
  the definition is the code's.  An id outside this range reaches the handlers
  converted, which the definition does not follow; whatever is stated below about the
  effect of an arbitrary id is stated for an \<open>int32\<close> id.
\<close>

definition DoApplyAction :: "params \<Rightarrow> GITCGState \<Rightarrow> int \<Rightarrow> error + GITCGState" where
  "DoApplyAction P s action =
     (case phase s of
        kDeal \<Rightarrow> ApplyDealAction P s action
      | kAuction \<Rightarrow> ApplyBiddingAction P s action
      | kPlay \<Rightarrow> ApplyPlayAction P s action
      | kGameOver \<Rightarrow> Inl SpielFatalError)"

section \<open>The host's driver\<close>

text \<open>
  Modelled from the spec: the host framework's \<open>State::ApplyAction\<close> is not among the
  sources.  The engine reads \<open>history_.size()\<close> as the number of actions applied so far
  and \<open>history_[0].action\<close> as the first of them, so the host runs \<open>DoApplyAction\<close> and
  then appends the action to \<open>history_\<close>.
\<close>

definition ApplyAction :: "params \<Rightarrow> GITCGState \<Rightarrow> int \<Rightarrow> error + GITCGState" where
  "ApplyAction P s action =
     (case DoApplyAction P s action of
        Inl e \<Rightarrow> Inl e
      | Inr s' \<Rightarrow> Inr (s'\<lparr>history := history s' @ [action]\<rparr>))"

text \<open>
  A state is reachable when a host that only ever applies legal actions, as the
  simulation of \<open>gi_tcg_test.cc\<close> does, can produce it from the initial state.
\<close>

inductive reachable :: "params \<Rightarrow> GITCGState \<Rightarrow> bool" for P :: params where
  reachable_init: "reachable P (NewInitialState P)"
| reachable_step:
    "reachable P s \<Longrightarrow> LegalActions P s = Inr acts \<Longrightarrow> a \<in> set acts \<Longrightarrow>
     ApplyAction P s a = Inr s' \<Longrightarrow> reachable P s'"

text \<open>The same host as a function: it plays a list of actions and stops at the first
  one that is not legal (\<open>NotLegal\<close>) or that the engine refuses.\<close>

fun play_legal :: "params \<Rightarrow> GITCGState \<Rightarrow> int list \<Rightarrow> error + GITCGState" where
  "play_legal P s [] = Inr s"
| "play_legal P s (a # as) =
     (case LegalActions P s of
        Inl e \<Rightarrow> Inl e
      | Inr acts \<Rightarrow>
          if a \<notin> set acts then Inl NotLegal
          else (case ApplyAction P s a of
                  Inl e \<Rightarrow> Inl e
                | Inr s' \<Rightarrow> play_legal P s' as))"

section \<open>Well-formed parameters and states\<close>

text \<open>
  What the proofs about reachable states ask of the missing parts: the deck and the
  leftover block are not of negative size, the invalid player is a negative number (so that the check at the end
  of the deal tells it from a seat), the card codec maps every card of the deck to a
  rank of the rank vector, and the enumerator of combinations never produces the Pass
  id.  \<open>state_ok\<close> collects the shape of a state of the engine: the sizes of its
  arrays, the pool as a vector of zeros and ones, and per phase the ranges of the
  players, counters and indices that the handlers use as array indices.
\<close>

definition wf_params :: "params \<Rightarrow> bool" where
  "wf_params P \<longleftrightarrow>
     0 \<le> kNumCards P \<and> 0 \<le> kNumCardsLeftOver P \<and> kInvalidPlayer P < 0 \<and>
     (\<forall>c. 0 \<le> c \<and> c < kNumCards P \<longrightarrow> in_range (CardToRank P c) (nat (kNumRanks P))) \<and>
     (\<forall>hand prev. kPass P \<notin> set (SearchForLegalActions P hand prev))"

definition state_ok :: "params \<Rightarrow> GITCGState \<Rightarrow> bool" where
  "state_ok P s \<longleftrightarrow>
     length (dealer_deck s) = nat (kNumCards P) \<and>
     (\<forall>x \<in> set (dealer_deck s). x = 0 \<or> x = 1) \<and>
     map length (holds s) = replicate 3 (nat (kNumRanks P)) \<and>
     length (players_hands_played s) = 3 \<and> length (returns s) = 3 \<and>
     (phase s = kDeal \<longrightarrow>
        winning_bid s = 0 \<and> num_passes s = 0 \<and> trick_played s = 0 \<and>
        (first_player s = kInvalidPlayer P \<or> in_range (first_player s) 3) \<and>
        (if card_face_up_position s = - 1
         then history s = [] \<and> sum_list (dealer_deck s) = kNumCards P
         else history s \<noteq> [] \<and>
              sum_list (dealer_deck s) = kNumCards P - (int (length (history s)) - 1))) \<and>
     (phase s \<noteq> kDeal \<longrightarrow>
        int (length (cards_left_over s)) = kNumCardsLeftOver P \<and>
        (\<forall>r \<in> set (cards_left_over s). in_range r (nat (kNumRanks P)))) \<and>
     (phase s = kAuction \<longrightarrow>
        in_range (current_player s) 3 \<and> 0 \<le> winning_bid s \<and>
        (0 < winning_bid s \<longrightarrow> in_range (dizhu s) 3) \<and> trick_played s = 0) \<and>
     (phase s = kPlay \<longrightarrow>
        in_range (current_player s) 3 \<and> in_range (dizhu s) 3 \<and>
        0 \<le> trick_played s \<and> trick_played s + 1 = int (length (tricks s)) \<and>
        (\<not> new_trick_begin s \<longrightarrow> in_range (winning_player (last (tricks s))) 3) \<and>
        (new_trick_begin s \<longrightarrow> num_passes s = 0) \<and>
        (num_passes s = 0 \<or> num_passes s = 1))"

text \<open>
  What every reachable state satisfies about the landlord.  Nobody is landlord before the
  first bid; a bid is followed by at most one Pass while the auction is still open; and
  once the game is over with a landlord, the returns are the ones \<open>ScoreUp\<close> writes.
\<close>

definition settlement_ok :: "params \<Rightarrow> GITCGState \<Rightarrow> bool" where
  "settlement_ok P s \<longleftrightarrow>
     (phase s = kDeal \<longrightarrow> dizhu s = kInvalidPlayer P) \<and>
     (phase s = kAuction \<longrightarrow>
        0 \<le> num_passes s \<and>
        (winning_bid s = 0 \<longrightarrow> dizhu s = kInvalidPlayer P) \<and>
        (0 < winning_bid s \<longrightarrow> num_passes s \<le> 1)) \<and>
     (phase s = kGameOver \<and> dizhu s \<noteq> kInvalidPlayer P \<longrightarrow>
        (let paying = winning_bid s * 2 ^ nat (of_bool (is_spring s) + bombs_played s);
             dizhu_sign = (if final_winner s = dizhu s then 1 else - 1)
         in returns s ! nat (dizhu s) = dizhu_sign * 2 * paying \<and>
            returns s ! nat ((dizhu s + 1) smod 3) = - dizhu_sign * paying \<and>
            returns s ! nat ((dizhu s + 2) smod 3) = - dizhu_sign * paying \<and>
            sum_list (returns s) = 0))"

section \<open>Observations along a run\<close>

text \<open>
  One auction as the host runs it: the legal actions of the list are applied in turn
  while the phase is Auction; the result pairs every applied action with the state it
  led to.  The accepted bids are the values that the bids among them wrote to
  \<open>winning_bid_\<close>; the trace of the winning bid is its value in every state of the run.
\<close>

fun auction_run :: "params \<Rightarrow> GITCGState \<Rightarrow> int list \<Rightarrow> (int \<times> GITCGState) list" where
  "auction_run P s [] = []"
| "auction_run P s (a # as) =
     (if phase s \<noteq> kAuction \<or> a \<notin> set (BiddingLegalActions P s) then []
      else (case ApplyAction P s a of
              Inl e \<Rightarrow> []
            | Inr s' \<Rightarrow> (a, s') # auction_run P s' as))"

definition accepted_bids :: "params \<Rightarrow> GITCGState \<Rightarrow> int list \<Rightarrow> int list" where
  "accepted_bids P s as =
     map (\<lambda>(a, s'). winning_bid s') (filter (\<lambda>(a, s'). a \<noteq> kPass P) (auction_run P s as))"

definition winning_bid_trace :: "params \<Rightarrow> GITCGState \<Rightarrow> int list \<Rightarrow> int list" where
  "winning_bid_trace P s as = winning_bid s # map (\<lambda>(a, s'). winning_bid s') (auction_run P s as)"

text \<open>
  What a seat did in the play phase along a run of the host: the number of hands (plays
  other than Pass) it played, and the indices of the tricks in which it played one.
\<close>

fun hands_played_by :: "params \<Rightarrow> GITCGState \<Rightarrow> int list \<Rightarrow> int \<Rightarrow> int" where
  "hands_played_by P s [] p = 0"
| "hands_played_by P s (a # as) p =
     (case ApplyAction P s a of
        Inl e \<Rightarrow> 0
      | Inr s' \<Rightarrow>
          (if phase s = kPlay \<and> a \<noteq> kPass P \<and> current_player s = p then 1 else 0) +
          hands_played_by P s' as p)"

fun tricks_played_in :: "params \<Rightarrow> GITCGState \<Rightarrow> int list \<Rightarrow> int \<Rightarrow> int list" where
  "tricks_played_in P s [] p = []"
| "tricks_played_in P s (a # as) p =
     (case ApplyAction P s a of
        Inl e \<Rightarrow> []
      | Inr s' \<Rightarrow>
          (if phase s = kPlay \<and> a \<noteq> kPass P \<and> current_player s = p
           then [trick_played s] else []) @
          tricks_played_in P s' as p)"

text \<open>
  The spring condition as the spec words it: the landlord played in exactly one trick
  in total, or neither of the other two seats ever played a card.
\<close>

definition spec_is_spring :: "params \<Rightarrow> GITCGState \<Rightarrow> int list \<Rightarrow> int \<Rightarrow> bool" where
  "spec_is_spring P s as d =
     (length (remdups (tricks_played_in P s as d)) = 1 \<or>
      (hands_played_by P s as ((d + 1) smod 3) = 0 \<and>
       hands_played_by P s as ((d + 2) smod 3) = 0))"

section \<open>An instance of the parameters\<close>

text \<open>
  The standard game: 54 cards (13 ranks in 4 suits and two jokers, ranks 13 and 14),
  a leftover block of 3 cards, bids 1 to 3, and the action bands laid out one after the
  other as section 6 of the spec describes (51 face-up slots, 54 card ids from 51, Pass
  at 105, the bids at 106 to 108, the plays from 109).  Of the plays the instance knows
  the fifteen single cards, id 109 + rank, where a higher rank beats a lower one; every
  id from 26148 on counts as a bomb.
\<close>

definition std_CardToRank :: "int \<Rightarrow> int" where
  "std_CardToRank c = (if c = 52 \<or> c = 53 then c - 54 + 15 else c smod 13)"

definition std_ActionToHand :: "int \<Rightarrow> int list" where
  "std_ActionToHand a =
     (if 109 \<le> a \<and> a < 124 then (replicate 15 0)[nat (a - 109) := 1] else replicate 15 0)"

definition std_Search :: "int list \<Rightarrow> int \<Rightarrow> int list" where
  "std_Search hand prev_action =
     map (\<lambda>r. 109 + int r)
       (filter (\<lambda>r. hand ! r \<noteq> 0 \<and> (prev_action < 109 \<or> prev_action < 109 + int r))
          [0..<length hand])"

definition std_params :: params where
  "std_params =
     \<lparr>kNumCards = 54, kNumCardsLeftOver = 3, kNumRanks = 15, kNumBids = 3,
      kDealingActionBase = 51, kBiddingActionBase = 105, kPass = 105,
      kBombActionBase = 26148, kInvalidPlayer = - 3, kInvalidAction = - 1,
      CardToRank = std_CardToRank, ActionToHand = std_ActionToHand,
      SearchForLegalActions = std_Search, default_Trick = Trick_ctor (- 3) (- 1)\<rparr>"

text \<open>A complete deal: face-up slot 0, then the cards 0 to 50 in order, which leaves
  the cards 51, 52 and 53 (ranks 12, 13 and 14) as the leftover block.\<close>

definition deal_actions :: "int list" where
  "deal_actions = 0 # map (\<lambda>c. 51 + int c) [0..<51]"

text \<open>The states of the scenarios below, written out; each is the state the host
  reaches by the actions named with it.\<close>

definition after_deal :: GITCGState where
  "after_deal =
     \<lparr>history = deal_actions, num_passes = 0, winning_bid = 0, trick_played = 0,
      num_played = 0, card_face_up_position = 0, card_rank_face_up = 0,
      new_trick_begin = False, current_player = 0, first_player = 0, dizhu = - 3,
      final_winner = - 3, phase = kAuction,
      dealer_deck = replicate 51 0 @ [1, 1, 1],
      played_deck = replicate 15 0, tricks = [], bombs_played = 0,
      players_hands_played = [0, 0, 0], cards_left_over = [12, 13, 14],
      holds =
        [[2, 1, 1, 2, 1, 1, 2, 1, 1, 2, 1, 1, 1, 0, 0],
         [1, 2, 1, 1, 2, 1, 1, 2, 1, 1, 2, 1, 1, 0, 0],
         [1, 1, 2, 1, 1, 2, 1, 1, 2, 1, 1, 2, 1, 0, 0]],
      returns = [0, 0, 0]\<rparr>"

text \<open>After the deal and two passes (Scenario B before its last pass).\<close>

definition after_two_passes :: GITCGState where
  "after_two_passes =
     after_deal\<lparr>history := deal_actions @ [105, 105], num_passes := 2, current_player := 2\<rparr>"

text \<open>After the deal, a bid of 1 by seat 0 and one pass (Scenario C before its last
  pass).\<close>

definition after_bid1_pass :: GITCGState where
  "after_bid1_pass =
     after_deal\<lparr>history := deal_actions @ [106, 105], num_passes := 1, winning_bid := 1,
                current_player := 2, dizhu := 0\<rparr>"


text \<open>After the deal and a bid of 3 by seat 0, which ends the auction at once: seat 0
  is the landlord and leads trick 0.\<close>

definition after_bid3 :: GITCGState where
  "after_bid3 =
     after_deal\<lparr>history := deal_actions @ [108], winning_bid := 3, dizhu := 0,
                new_trick_begin := True, phase := kPlay, tricks := [Trick_ctor 0 (- 1)],
                holds :=
                  [[2, 1, 1, 2, 1, 1, 2, 1, 1, 2, 1, 1, 2, 1, 1],
                   [1, 2, 1, 1, 2, 1, 1, 2, 1, 1, 2, 1, 1, 0, 0],
                   [1, 1, 2, 1, 1, 2, 1, 1, 2, 1, 1, 2, 1, 0, 0]]\<rparr>"

text \<open>Then the landlord leads the single card of rank 0 (action 109).\<close>

definition after_lead :: GITCGState where
  "after_lead =
     after_bid3\<lparr>history := deal_actions @ [108, 109], num_played := 1,
                new_trick_begin := False, current_player := 1,
                played_deck := [1, 0, 0, 0, 0, 0, 0, 0, 0, 0, 0, 0, 0, 0, 0],
                tricks := [\<lparr>winning_action = 109, leader = 0, winning_player = 0\<rparr>],
                players_hands_played := [1, 0, 0],
                holds :=
                  [[1, 1, 1, 2, 1, 1, 2, 1, 1, 2, 1, 1, 2, 1, 1],
                   [1, 2, 1, 1, 2, 1, 1, 2, 1, 1, 2, 1, 1, 0, 0],
                   [1, 1, 2, 1, 1, 2, 1, 1, 2, 1, 1, 2, 1, 0, 0]]\<rparr>"

text \<open>Trick 0 one pass before it closes: seat 0 led rank 0, seat 1 played rank 1, seat 2
  passed, seat 0 played rank 2, seat 1 played rank 3 and seat 2 passed; seat 0 is to
  act and seat 1 holds the trick.\<close>

definition trick0_actions :: "int list" where
  "trick0_actions = [108, 109, 110, 105, 111, 112, 105]"

definition before_close :: GITCGState where
  "before_close =
     after_bid3\<lparr>history := deal_actions @ trick0_actions, num_passes := 1, num_played := 6,
                new_trick_begin := False, current_player := 0,
                played_deck := [1, 1, 1, 1, 0, 0, 0, 0, 0, 0, 0, 0, 0, 0, 0],
                tricks := [\<lparr>winning_action = 112, leader = 0, winning_player = 1\<rparr>],
                players_hands_played := [2, 2, 0],
                holds :=
                  [[1, 1, 0, 2, 1, 1, 2, 1, 1, 2, 1, 1, 2, 1, 1],
                   [1, 1, 1, 0, 2, 1, 1, 2, 1, 1, 2, 1, 1, 0, 0],
                   [1, 1, 2, 1, 1, 2, 1, 1, 2, 1, 1, 2, 1, 0, 0]]\<rparr>"

text \<open>A whole game after the deal: seat 0 bids 3 and plays twice in trick 0, which seat 1
  wins; seat 1 then leads its fifteen remaining cards one by one, both others passing
  each time, and goes out.\<close>

definition farmer_wins_actions :: "int list" where
  "farmer_wins_actions =
     trick0_actions @ [105] @
     concat (map (\<lambda>r. [109 + r, 105, 105]) [0, 1, 2, 4, 4, 5, 6, 7, 7, 8, 9, 10, 10, 11]) @
     [121]"

text \<open>Scenario E of the spec: the landlord (seat 0, winning bid 3) goes out after one
  bomb was played and every seat has played several hands, so there is no spring.\<close>

definition scenario_E :: GITCGState where
  "scenario_E =
     (NewInitialState std_params)
       \<lparr>dizhu := 0, winning_bid := 3, bombs_played := 1, final_winner := 0,
        players_hands_played := [5, 4, 4], phase := kPlay\<rparr>"

section \<open>Settlement is zero-sum\<close>

lemma smod3_vals:
  "(0::int) smod 3 = 0" "(1::int) smod 3 = 1" "(2::int) smod 3 = 2" "(3::int) smod 3 = 0"
  "(4::int) smod 3 = 1"
  by (simp_all add: signed_modulo_int_def)

text \<open>The doubling loop computes \<open>p * 2 ^ (n - i)\<close> whenever it returns, and it returns
  whenever that product fits a 32-bit \<open>int\<close>.\<close>

lemma paying_loop_result:
  "paying_loop i n p = Inr q \<Longrightarrow> q = p * 2 ^ nat (n - i)"
proof (induction i n p rule: paying_loop.induct)
  case (1 i n paying)
  show ?case
  proof (cases "i < n")
    case True
    then have e: "nat (n - i) = Suc (nat (n - (i + 1)))" by simp
    from "1.prems" True have ok: "int32 (paying * 2)"
      by (simp add: paying_loop.simps [of i n paying] split: if_splits)
    from "1.prems" True ok have "paying_loop (i + 1) n (paying * 2) = Inr q"
      by (simp add: paying_loop.simps [of i n paying])
    from "1.IH" [OF True ok this] show ?thesis by (simp add: e)
  next
    case False
    with "1.prems" show ?thesis by (simp add: paying_loop.simps [of i n paying])
  qed
qed

lemma paying_loop_total:
  "0 \<le> p \<Longrightarrow> p * 2 ^ nat (n - i) < 2 ^ 31 \<Longrightarrow> paying_loop i n p = Inr (p * 2 ^ nat (n - i))"
proof (induction i n p rule: paying_loop.induct)
  case (1 i n paying)
  show ?case
  proof (cases "i < n")
    case True
    then have e: "nat (n - i) = Suc (nat (n - (i + 1)))" by simp
    have le: "paying * 2 \<le> paying * 2 ^ nat (n - i)"
      using "1.prems"(1) by (simp add: e mult_left_mono)
    have ok: "int32 (paying * 2)"
      using "1.prems" le by (simp add: int32_def)
    have "paying_loop (i + 1) n (paying * 2) = Inr (paying * 2 * 2 ^ nat (n - (i + 1)))"
      using "1.IH" [OF True ok] "1.prems" by (simp add: e)
    then show ?thesis using True ok by (simp add: e paying_loop.simps [of i n paying])
  next
    case False
    then show ?thesis by (simp add: paying_loop.simps [of i n paying])
  qed
qed

text \<open>
  \<open>ScoreUp\<close> returns whenever the landlord sits in seat 0, 1 or 2 and the doubled stake
  fits a 32-bit \<open>int\<close>, and it then writes the three returns from the stake
  \<open>winning_bid * 2 ^ (is_spring + bombs_played)\<close>.
\<close>

lemma ScoreUp_returns:
  assumes d: "dizhu s \<in> {0, 1, 2}" and inv: "dizhu s \<noteq> kInvalidPlayer P"
    and lr: "length (returns s) = 3" and lp: "length (players_hands_played s) = 3"
    and wb: "0 \<le> winning_bid s" and bp: "0 \<le> bombs_played s"
    and bound: "winning_bid s * 2 ^ (nat (bombs_played s) + 2) < 2 ^ 31"
  shows "\<exists>s'. ScoreUp P s = Inr s' \<and>
     (let paying = winning_bid s * 2 ^ nat (of_bool (is_spring s) + bombs_played s);
          dizhu_sign = (if final_winner s = dizhu s then 1 else - 1)
      in returns s' ! nat (dizhu s) = dizhu_sign * 2 * paying \<and>
         returns s' ! nat ((dizhu s + 1) smod 3) = - dizhu_sign * paying \<and>
         returns s' ! nat ((dizhu s + 2) smod 3) = - dizhu_sign * paying \<and>
         sum_list (returns s') = 0)"
proof -
  define n where "n = of_bool (is_spring s) + bombs_played s"
  define paying where "paying = winning_bid s * 2 ^ nat n"
  have n_le: "nat n \<le> nat (bombs_played s) + 1"
    using bp by (cases "is_spring s") (simp_all add: n_def)
  have "(2::int) ^ nat n \<le> 2 ^ (nat (bombs_played s) + 1)"
    using n_le by (rule power_increasing) simp
  then have p_le: "paying \<le> winning_bid s * 2 ^ (nat (bombs_played s) + 1)"
    using wb by (simp add: paying_def mult_left_mono)
  have p_lt: "paying * 2 < 2 ^ 31"
    using p_le bound by simp
  have p_ge: "0 \<le> paying" using wb by (simp add: paying_def)
  have loop: "paying_loop 0 n (winning_bid s) = Inr paying"
    using paying_loop_total [of "winning_bid s" n 0] wb p_lt p_ge
    by (simp add: paying_def)
  have ok32: "int32 (2 * paying)" "int32 (- (2 * paying))"
    using p_lt p_ge by (simp_all add: int32_def)
  obtain a b c where r: "returns s = [a, b, c]"
    using lr by (auto simp: length_Suc_conv eval_nat_numeral)
  from d consider "dizhu s = 0" | "dizhu s = 1" | "dizhu s = 2" by auto
  then show ?thesis
  proof cases
    case 1
    then show ?thesis
      using inv lr lp loop ok32 r
      by (simp add: ScoreUp_def in_range_def n_def [symmetric] paying_def [symmetric]
          Let_def smod3_vals)
  next
    case 2
    then show ?thesis
      using inv lr lp loop ok32 r
      by (simp add: ScoreUp_def in_range_def n_def [symmetric] paying_def [symmetric]
          Let_def smod3_vals)
  next
    case 3
    then show ?thesis
      using inv lr lp loop ok32 r
      by (simp add: ScoreUp_def in_range_def n_def [symmetric] paying_def [symmetric]
          Let_def smod3_vals)
  qed
qed

section \<open>Arrays and the leftover loop\<close>

lemma in_range_nat: "in_range i n \<Longrightarrow> nat i < n"
  by (auto simp: in_range_def)

lemma length_incr2 [simp]: "length (incr2 h p r) = length h"
  by (simp add: incr2_def)

lemma incr2_nth_other: "q \<noteq> p \<Longrightarrow> incr2 h p r ! q = h ! q"
  by (simp add: incr2_def)

lemma incr2_nth_same: "p < length h \<Longrightarrow> incr2 h p r ! p = (h ! p)[r := h ! p ! r + 1]"
  by (simp add: incr2_def)

lemma sum_list_update_int:
  fixes xs :: "int list"
  shows "k < length xs \<Longrightarrow> sum_list (xs[k := x]) = sum_list xs + x - xs ! k"
  by (induction xs arbitrary: k) (auto split: nat.splits)

lemma hand_total_update:
  "p < length h \<Longrightarrow> hand_total (h[p := row]) = hand_total h + sum_list row - sum_list (h ! p)"
  by (simp add: hand_total_def map_update sum_list_update_int)

lemma hand_total_incr2:
  "p < length h \<Longrightarrow> r < length (h ! p) \<Longrightarrow> hand_total (incr2 h p r) = hand_total h + 1"
  by (simp add: incr2_def hand_total_update sum_list_update_int)

lemma give_left_over_frame:
  "give_left_over P s i = Inr s' \<Longrightarrow>
     s' = s\<lparr>holds := holds s'\<rparr> \<and> length (holds s') = length (holds s) \<and>
     hand_total (holds s') = hand_total (holds s) + int (nat (kNumCardsLeftOver P) - i)"
proof (induction P s i rule: give_left_over.induct)
  case (1 P s i)
  note eq = give_left_over.simps [of P s i]
  show ?case
  proof (cases "int i < kNumCardsLeftOver P")
    case False
    with "1.prems" eq have "s' = s" by simp
    with False show ?thesis by simp
  next
    case True
    from "1.prems" eq True
    have b1: "i < length (cards_left_over s) \<and> in_range (dizhu s) (length (holds s))"
      and b2: "in_range (cards_left_over s ! i) (length (holds s ! nat (dizhu s)))"
      by (auto split: if_splits)
    define s1 where
      "s1 = s\<lparr>holds := incr2 (holds s) (nat (dizhu s)) (nat (cards_left_over s ! i))\<rparr>"
    from "1.prems" eq True b1 b2 have run: "give_left_over P s1 (i + 1) = Inr s'"
      by (simp add: s1_def)
    have ih: "s' = s1\<lparr>holds := holds s'\<rparr> \<and> length (holds s') = length (holds s1) \<and>
        hand_total (holds s') = hand_total (holds s1) + int (nat (kNumCardsLeftOver P) - (i + 1))"
      using "1.IH" [OF True _ _ run [unfolded s1_def]] b1 b2 by (simp add: s1_def)
    have t1: "hand_total (holds s1) = hand_total (holds s) + 1"
      using b1 b2 by (simp add: s1_def hand_total_incr2 in_range_nat)
    have "s' = s\<lparr>holds := holds s'\<rparr>"
      using ih by (simp add: s1_def)
    moreover have "int (nat (kNumCardsLeftOver P) - i) = 1 + int (nat (kNumCardsLeftOver P) - (i + 1))"
      using True by auto
    ultimately show ?thesis using ih t1 by (simp add: s1_def)
  qed
qed


lemma give_left_over_rows:
  "give_left_over P s i = Inr s' \<Longrightarrow>
     (\<forall>p. p \<noteq> nat (dizhu s) \<longrightarrow> holds s' ! p = holds s ! p) \<and>
     length (holds s' ! nat (dizhu s)) = length (holds s ! nat (dizhu s)) \<and>
     (\<forall>r < length (holds s ! nat (dizhu s)).
        holds s' ! nat (dizhu s) ! r =
        holds s ! nat (dizhu s) ! r +
        int (count_list (drop i (take (nat (kNumCardsLeftOver P)) (cards_left_over s))) (int r)))"
proof (induction P s i rule: give_left_over.induct)
  case (1 P s i)
  note eq = give_left_over.simps [of P s i]
  let ?d = "nat (dizhu s)"
  let ?L = "nat (kNumCardsLeftOver P)"
  show ?case
  proof (cases "int i < kNumCardsLeftOver P")
    case False
    with "1.prems" eq have "s' = s" by simp
    moreover from False have "drop i (take ?L (cards_left_over s)) = []" by simp
    ultimately show ?thesis by simp
  next
    case True
    from "1.prems" eq True
    have b1: "i < length (cards_left_over s)" "in_range (dizhu s) (length (holds s))"
      and b2: "in_range (cards_left_over s ! i) (length (holds s ! ?d))"
      by (auto split: if_splits)
    let ?x = "cards_left_over s ! i"
    define s1 where "s1 = s\<lparr>holds := incr2 (holds s) ?d (nat ?x)\<rparr>"
    from "1.prems" eq True b1 b2 have run: "give_left_over P s1 (i + 1) = Inr s'"
      by (simp add: s1_def)
    have ih: "(\<forall>p. p \<noteq> ?d \<longrightarrow> holds s' ! p = holds s1 ! p) \<and>
       length (holds s' ! ?d) = length (holds s1 ! ?d) \<and>
       (\<forall>r < length (holds s1 ! ?d).
          holds s' ! ?d ! r = holds s1 ! ?d ! r +
          int (count_list (drop (i + 1) (take ?L (cards_left_over s))) (int r)))"
      using "1.IH" [OF True _ _ run [unfolded s1_def]] b1 b2 by (simp add: s1_def)
    have dlt: "?d < length (holds s)" using b1(2) by (rule in_range_nat)
    have row1: "holds s1 ! ?d = (holds s ! ?d)[nat ?x := holds s ! ?d ! nat ?x + 1]"
      using dlt by (simp add: s1_def incr2_nth_same)
    have other1: "\<And>p. p \<noteq> ?d \<Longrightarrow> holds s1 ! p = holds s ! p"
      by (simp add: s1_def incr2_nth_other)
    have "i < length (take ?L (cards_left_over s))" using True b1 by simp
    then have dr: "drop i (take ?L (cards_left_over s)) =
        ?x # drop (i + 1) (take ?L (cards_left_over s))"
      using Cons_nth_drop_Suc [of i "take ?L (cards_left_over s)"] True by simp
    have x0: "0 \<le> ?x" using b2 by (simp add: in_range_def)
    have elem: "\<And>r. r < length (holds s ! ?d) \<Longrightarrow>
        holds s1 ! ?d ! r = holds s ! ?d ! r + (if ?x = int r then 1 else 0)"
      using x0 by (auto simp: row1)
    show ?thesis
      using ih other1 elem by (simp add: row1 dr)
  qed
qed

lemma give_left_over_total:
  assumes "in_range (dizhu s) (length (holds s))"
    and "nat (kNumCardsLeftOver P) \<le> length (cards_left_over s)"
    and "\<forall>r \<in> set (take (nat (kNumCardsLeftOver P)) (cards_left_over s)).
           in_range r (length (holds s ! nat (dizhu s)))"
  shows "\<exists>s'. give_left_over P s i = Inr s'"
  using assms
proof (induction P s i rule: give_left_over.induct)
  case (1 P s i)
  note eq = give_left_over.simps [of P s i]
  let ?d = "nat (dizhu s)"
  let ?L = "nat (kNumCardsLeftOver P)"
  show ?case
  proof (cases "int i < kNumCardsLeftOver P")
    case False
    then show ?thesis by (simp add: eq)
  next
    case True
    then have iL: "i < ?L" by simp
    with "1.prems"(2) have b1: "i < length (cards_left_over s)" by simp
    have "take ?L (cards_left_over s) ! i \<in> set (take ?L (cards_left_over s))"
      using iL b1 by (intro nth_mem) simp
    then have b2: "in_range (cards_left_over s ! i) (length (holds s ! ?d))"
      using "1.prems"(3) iL by simp
    have dlt: "?d < length (holds s)" using "1.prems"(1) by (rule in_range_nat)
    define s1 where
      "s1 = s\<lparr>holds := incr2 (holds s) ?d (nat (cards_left_over s ! i))\<rparr>"
    have "\<exists>s'. give_left_over P s1 (i + 1) = Inr s'"
      unfolding s1_def
      using "1.IH" [OF True] b1 b2 "1.prems" dlt
      by (simp add: incr2_nth_same)
    then show ?thesis
      using True b1 b2 "1.prems"(1) by (simp add: eq s1_def)
  qed
qed

section \<open>The cases of a bidding step\<close>

lemma ApplyBiddingAction_cases:
  assumes "ApplyBiddingAction P s a = Inr s'"
  obtains
    (game_over) "a = kPass P" "num_passes s + 1 = kNumPlayers"
      "s' = advance (s\<lparr>num_passes := num_passes s + 1, phase := kGameOver\<rparr>)"
  | (winner_pass) s3 where "a = kPass P" "num_passes s + 1 \<noteq> kNumPlayers"
      "num_passes s + 1 = kNumPlayers - 1" "0 < winning_bid s"
      "give_left_over P (s\<lparr>num_passes := num_passes s + 1\<rparr>) 0 = Inr s3"
      "s' = finalize_auction P s3"
  | (pass) "a = kPass P" "num_passes s + 1 \<noteq> kNumPlayers"
      "\<not> (num_passes s + 1 = kNumPlayers - 1 \<and> 0 < winning_bid s)"
      "s' = advance (s\<lparr>num_passes := num_passes s + 1\<rparr>)"
  | (winner_bid) s3 where "a \<noteq> kPass P" "a - kBiddingActionBase P = kNumBids P"
      "give_left_over P (s\<lparr>num_passes := 0, dizhu := current_player s,
                            winning_bid := a - kBiddingActionBase P\<rparr>) 0 = Inr s3"
      "s' = finalize_auction P s3" "int32 (a - kBiddingActionBase P)"
  | (bid) "a \<noteq> kPass P" "a - kBiddingActionBase P \<noteq> kNumBids P"
      "s' = advance (s\<lparr>num_passes := 0, dizhu := current_player s,
                       winning_bid := a - kBiddingActionBase P\<rparr>)"
      "int32 (a - kBiddingActionBase P)"
proof (cases "a = kPass P")
  case True
  note p = True
  show ?thesis
  proof (cases "num_passes s + 1 = kNumPlayers")
    case True
    with p assms have "s' = advance (s\<lparr>num_passes := num_passes s + 1, phase := kGameOver\<rparr>)"
      by (simp add: ApplyBiddingAction_def)
    with p True show ?thesis by (rule game_over)
  next
    case False
    note n3 = False
    show ?thesis
    proof (cases "num_passes s + 1 = kNumPlayers - 1 \<and> 0 < winning_bid s")
      case True
      with p n3 assms obtain s3 where
        "give_left_over P (s\<lparr>num_passes := num_passes s + 1\<rparr>) 0 = Inr s3"
        "s' = finalize_auction P s3"
        by (auto simp: ApplyBiddingAction_def finalize_auction_def split: sum.splits)
      with p n3 True show ?thesis by (intro winner_pass) auto
    next
      case False
      with p n3 assms have "s' = advance (s\<lparr>num_passes := num_passes s + 1\<rparr>)"
        by (auto simp: ApplyBiddingAction_def)
      with p n3 False show ?thesis by (intro pass) auto
    qed
  qed
next
  case False
  note np = False
  from np assms have fits: "int32 (a - kBiddingActionBase P)"
    by (auto simp: ApplyBiddingAction_def split: if_splits)
  show ?thesis
  proof (cases "a - kBiddingActionBase P = kNumBids P")
    case True
    with np fits assms obtain s3 where
      "give_left_over P (s\<lparr>num_passes := 0, dizhu := current_player s,
                            winning_bid := a - kBiddingActionBase P\<rparr>) 0 = Inr s3"
      "s' = finalize_auction P s3"
      by (auto simp: ApplyBiddingAction_def finalize_auction_def split: sum.splits)
    with np fits True show ?thesis by (intro winner_bid) auto
  next
    case False
    with np fits assms have "s' = advance (s\<lparr>num_passes := 0, dizhu := current_player s,
                       winning_bid := a - kBiddingActionBase P\<rparr>)"
      by (auto simp: ApplyBiddingAction_def)
    with np fits False show ?thesis by (intro bid) auto
  qed
qed

lemma BiddingLegalActions_loop_eq:
  "BiddingLegalActions_loop P b = map (\<lambda>v. kBiddingActionBase P + v) [b..kNumBids P]"
proof (induction P b rule: BiddingLegalActions_loop.induct)
  case (1 P bid)
  show ?case
  proof (cases "bid \<le> kNumBids P")
    case True
    with "1.IH" show ?thesis
      by (subst BiddingLegalActions_loop.simps) (simp add: upto_rec1 [of bid])
  next
    case False
    then show ?thesis by (simp add: BiddingLegalActions_loop.simps [of P bid])
  qed
qed

lemma set_BiddingLegalActions:
  "set (BiddingLegalActions P s) =
     {kPass P} \<union> {kBiddingActionBase P + v | v. winning_bid s < v \<and> v \<le> kNumBids P}"
proof -
  have "set (BiddingLegalActions_loop P (winning_bid s + 1)) =
          {kBiddingActionBase P + v | v. winning_bid s < v \<and> v \<le> kNumBids P}"
  proof (intro set_eqI iffI)
    fix x
    assume "x \<in> set (BiddingLegalActions_loop P (winning_bid s + 1))"
    then have "x \<in> (\<lambda>v. kBiddingActionBase P + v) ` set [winning_bid s + 1..kNumBids P]"
      unfolding BiddingLegalActions_loop_eq set_map .
    then obtain v where "x = kBiddingActionBase P + v" "v \<in> set [winning_bid s + 1..kNumBids P]"
      by (rule imageE)
    then show "x \<in> {kBiddingActionBase P + v | v. winning_bid s < v \<and> v \<le> kNumBids P}"
      by auto
  next
    fix x
    assume "x \<in> {kBiddingActionBase P + v | v. winning_bid s < v \<and> v \<le> kNumBids P}"
    then obtain v where "x = kBiddingActionBase P + v" "winning_bid s < v" "v \<le> kNumBids P"
      by auto
    then have "v \<in> set [winning_bid s + 1..kNumBids P]" by simp
    with \<open>x = kBiddingActionBase P + v\<close>
    show "x \<in> set (BiddingLegalActions_loop P (winning_bid s + 1))"
      unfolding BiddingLegalActions_loop_eq set_map by (rule image_eqI)
  qed
  then show ?thesis by (simp add: BiddingLegalActions_def)
qed

section \<open>The effect of one step on the card counts\<close>

lemma ApplyDealAction_frame:
  assumes "ApplyDealAction P s a = Inr s'"
  shows "tricks s' = tricks s \<and> returns s' = returns s \<and> played_deck s' = played_deck s \<and>
         players_hands_played s' = players_hands_played s \<and>
         history s' = history s \<and>
         sum_list (dealer_deck s') + hand_total (holds s') =
           sum_list (dealer_deck s) + hand_total (holds s) \<and>
         (phase s' = phase s \<and> cards_left_over s' = cards_left_over s \<or> phase s' = kAuction)"
proof (cases "card_face_up_position s = - 1")
  case True
  with assms have "s' = s\<lparr>card_face_up_position := a\<rparr>"
    by (simp add: ApplyDealAction_def)
  then show ?thesis by simp
next
  case False
  define dealing_round where "dealing_round = int (length (history s)) - 1"
  define s1 where "s1 = (if dealing_round = history s ! 0
                  then s\<lparr>first_player := dealing_round smod kNumPlayers,
                         card_rank_face_up := CardToRank P (a - kDealingActionBase P)\<rparr>
                  else s)"
  define p where "p = (length (history s) - 1) mod 3"
  define r where "r = CardToRank P (a - kDealingActionBase P)"
  define c where "c = a - kDealingActionBase P"
  define s3 where "s3 = s1\<lparr>holds := incr2 (holds s1) p (nat r),
       dealer_deck := (dealer_deck s1)[nat c := dealer_deck s1 ! nat c - 1]\<rparr>"
  have f1: "holds s1 = holds s" "dealer_deck s1 = dealer_deck s" "tricks s1 = tricks s"
    "returns s1 = returns s" "played_deck s1 = played_deck s" "phase s1 = phase s"
    "cards_left_over s1 = cards_left_over s" "history s1 = history s"
    "players_hands_played s1 = players_hands_played s"
    by (simp_all add: s1_def)
  from assms False have ne: "history s \<noteq> []"
    by (auto simp: ApplyDealAction_def split: if_splits)
  from assms False ne have b: "p < length (holds s)" "in_range r (length (holds s ! p))"
    "in_range c (length (dealer_deck s))"
    unfolding ApplyDealAction_def Let_def
    by (simp_all add: f1 [unfolded s1_def dealing_round_def] p_def r_def c_def split: if_splits)
  have res: "s' = s3 \<or>
     s' = s3\<lparr>phase := kAuction, current_player := first_player s3,
            cards_left_over := cards_left_over s3 @ left_over_loop P (dealer_deck s3) 0\<rparr>"
    using assms False ne
    unfolding ApplyDealAction_def Let_def s3_def s1_def dealing_round_def p_def r_def c_def
    by (simp split: if_splits)
  have tot: "sum_list (dealer_deck s3) + hand_total (holds s3) =
      sum_list (dealer_deck s) + hand_total (holds s)"
    using b by (simp add: s3_def f1 hand_total_incr2 sum_list_update_int in_range_nat)
  have f3: "tricks s3 = tricks s" "returns s3 = returns s" "played_deck s3 = played_deck s"
    "phase s3 = phase s" "cards_left_over s3 = cards_left_over s" "history s3 = history s"
    "players_hands_played s3 = players_hands_played s"
    by (simp_all add: s3_def f1)
  from res show ?thesis
  proof
    assume "s' = s3"
    with tot f3 show ?thesis by simp
  next
    assume "s' = s3\<lparr>phase := kAuction, current_player := first_player s3,
            cards_left_over := cards_left_over s3 @ left_over_loop P (dealer_deck s3) 0\<rparr>"
    with tot f3 show ?thesis by simp
  qed
qed

lemma AfterPlayHand_loop_frame:
  "AfterPlayHand_loop P p used r flag s = Inr (s', f) \<Longrightarrow> p < length (holds s) \<Longrightarrow>
     (\<exists>h pd. s' = s\<lparr>holds := h, played_deck := pd\<rparr> \<and> length h = length (holds s) \<and>
        hand_total h + sum_list pd = hand_total (holds s) + sum_list (played_deck s))"
proof (induction P p used r flag s rule: AfterPlayHand_loop.induct)
  case (1 P player used_hand rank flag s)
  note eq = AfterPlayHand_loop.simps [of P player used_hand rank flag s]
  show ?case
  proof (cases "int rank < kNumRanks P")
    case False
    with "1.prems" eq have "s' = s" by simp
    then have "s' = s\<lparr>holds := holds s, played_deck := played_deck s\<rparr>" by simp
    then show ?thesis by blast
  next
    case True
    from "1.prems" eq True
    have b: "rank < length (holds s ! player)" "rank < length used_hand"
      "rank < length (played_deck s)"
      and ge: "used_hand ! rank \<le> holds s ! player ! rank"
      by (auto split: if_splits)
    define H where "H = (holds s)[player :=
                        (holds s ! player)[rank := holds s ! player ! rank - used_hand ! rank]]"
    define PD where "PD = (played_deck s)[rank := played_deck s ! rank + used_hand ! rank]"
    define s2 where "s2 = s\<lparr>holds := H, played_deck := PD\<rparr>"
    define flag1 where "flag1 = (flag \<and> H ! player ! rank = 0)"
    from "1.prems" eq True b ge
    have run: "AfterPlayHand_loop P player used_hand (rank + 1) flag1 s2 = Inr (s', f)"
      by (simp add: Let_def s2_def H_def PD_def flag1_def)
    have bb: "\<not> \<not> (rank < length (holds s ! player) \<and> rank < length used_hand \<and>
                rank < length (played_deck s))" using b by simp
    have gg: "\<not> \<not> used_hand ! rank \<le> holds s ! player ! rank" using ge by simp
    have pl: "player < length (holds s2)" using "1.prems"(2) by (simp add: s2_def H_def)
    have "\<exists>h pd. s' = s2\<lparr>holds := h, played_deck := pd\<rparr> \<and> length h = length (holds s2) \<and>
        hand_total h + sum_list pd = hand_total (holds s2) + sum_list (played_deck s2)"
      using "1.IH" [OF True bb gg refl refl refl] run pl
      by (simp add: s2_def H_def PD_def flag1_def)
    then obtain h pd where ih: "s' = s2\<lparr>holds := h, played_deck := pd\<rparr>"
      "length h = length (holds s2)"
      "hand_total h + sum_list pd = hand_total (holds s2) + sum_list (played_deck s2)"
      by blast
    have tH: "hand_total H = hand_total (holds s) - used_hand ! rank"
      using "1.prems"(2) b by (simp add: H_def hand_total_update sum_list_update_int)
    have tP: "sum_list PD = sum_list (played_deck s) + used_hand ! rank"
      using b by (simp add: PD_def sum_list_update_int)
    have "s' = s\<lparr>holds := h, played_deck := pd\<rparr>" using ih(1) by (simp add: s2_def)
    moreover have "length h = length (holds s)" using ih(2) by (simp add: s2_def H_def)
    moreover have "hand_total h + sum_list pd = hand_total (holds s) + sum_list (played_deck s)"
      using ih(3) tH tP by (simp add: s2_def)
    ultimately show ?thesis by blast
  qed
qed

lemma ScoreUp_frame: "ScoreUp P s = Inr s' \<Longrightarrow> \<exists>r. s' = s\<lparr>returns := r\<rparr>"
  unfolding ScoreUp_def Let_def
  by (auto split: if_splits sum.splits intro: exI [of _ "returns s"])

lemma ApplyPlayAction_cases:
  assumes "ApplyPlayAction P s a = Inr s'"
  obtains
    (close) t where "a = kPass P" "num_passes s + 1 = kNumPlayers - 1" "CurrentTrick s = Inr t"
      "s' = s\<lparr>num_played := num_played s + 1, num_passes := 0, current_player := Winner t,
              trick_played := trick_played s + 1, tricks := tricks s @ [default_Trick P],
              new_trick_begin := True\<rparr>"
  | (pass) "a = kPass P" "num_passes s + 1 \<noteq> kNumPlayers - 1"
      "s' = advance (s\<lparr>num_played := num_played s + 1, num_passes := num_passes s + 1\<rparr>)"
  | (play) t s6 where "a \<noteq> kPass P"
      "in_range (current_player s) (length (players_hands_played s))"
      "CurrentTrick s = Inr t"
      "AfterPlayHand P (played_state P s a t) (current_player s) a = Inr (s6, False)"
      "s' = advance s6"
  | (out) t s6 s7 where "a \<noteq> kPass P"
      "in_range (current_player s) (length (players_hands_played s))"
      "CurrentTrick s = Inr t"
      "AfterPlayHand P (played_state P s a t) (current_player s) a = Inr (s6, True)"
      "ScoreUp P (s6\<lparr>final_winner := current_player s6\<rparr>) = Inr s7"
      "s' = s7\<lparr>phase := kGameOver\<rparr>"
proof (cases "a = kPass P")
  case True
  note p = True
  show ?thesis
  proof (cases "num_passes s + 1 = kNumPlayers - 1")
    case True
    with p assms obtain t where "CurrentTrick s = Inr t"
      "s' = s\<lparr>num_played := num_played s + 1, num_passes := 0, current_player := Winner t,
              trick_played := trick_played s + 1, tricks := tricks s @ [default_Trick P],
              new_trick_begin := True\<rparr>"
      by (auto simp: ApplyPlayAction_def CurrentTrick_def Let_def split: if_splits)
    with p True show ?thesis by (intro close) auto
  next
    case False
    with p assms have
      "s' = advance (s\<lparr>num_played := num_played s + 1, num_passes := num_passes s + 1\<rparr>)"
      by (auto simp: ApplyPlayAction_def Let_def)
    with p False show ?thesis by (intro pass) auto
  qed
next
  case False
  note np = False
  define s2 where "s2 = s\<lparr>num_played := num_played s + 1, num_passes := 0,
       bombs_played := (if kBombActionBase P \<le> a then bombs_played s + 1 else bombs_played s)\<rparr>"
  from assms np have b: "in_range (current_player s) (length (players_hands_played s))"
    by (auto simp: ApplyPlayAction_def Let_def split: if_splits)
  from assms np b obtain t where t: "CurrentTrick s = Inr t"
    by (auto simp: ApplyPlayAction_def Let_def CurrentTrick_def split: if_splits)
  have ps: "played_state P s a t =
     (let s0 = s\<lparr>num_played := num_played s + 1\<rparr>;
          s1 = s0\<lparr>num_passes := 0\<rparr>;
          s2 = (if kBombActionBase P \<le> a then s1\<lparr>bombs_played := bombs_played s1 + 1\<rparr> else s1);
          s3 = s2\<lparr>players_hands_played :=
                            (players_hands_played s2)[nat (current_player s2) :=
                               players_hands_played s2 ! nat (current_player s2) + 1]\<rparr>;
          s4 = (if new_trick_begin s3 then s3\<lparr>new_trick_begin := False\<rparr> else s3)
      in s4\<lparr>tricks := (tricks s4)[nat (trick_played s4) :=
                                    Trick_Play t (current_player s4) a]\<rparr>)"
    by (cases "new_trick_begin s") (simp_all add: played_state_def Let_def)
  from assms np b t obtain s6 all_played where
    aph: "AfterPlayHand P (played_state P s a t) (current_player s) a = Inr (s6, all_played)"
    and rest: "(if all_played
                then (case ScoreUp P (s6\<lparr>final_winner := current_player s6\<rparr>) of
                        Inl e \<Rightarrow> Inl e
                      | Inr s7 \<Rightarrow> Inr (s7\<lparr>phase := kGameOver\<rparr>))
                else Inr (advance s6)) = Inr s'"
    unfolding ps
    by (auto simp: ApplyPlayAction_def Let_def CurrentTrick_def split: if_splits sum.splits)
  show ?thesis
  proof (cases all_played)
    case True
    with rest obtain s7 where "ScoreUp P (s6\<lparr>final_winner := current_player s6\<rparr>) = Inr s7"
      "s' = s7\<lparr>phase := kGameOver\<rparr>"
      by (auto split: sum.splits)
    with np b t aph True show ?thesis by (intro out) auto
  next
    case False
    with rest have "s' = advance s6" by simp
    with np b t aph False show ?thesis by (intro play) auto
  qed
qed

lemma give_left_over_holds:
  assumes "give_left_over P s i = Inr s3"
  obtains h where "s3 = s\<lparr>holds := h\<rparr>" "length h = length (holds s)"
    "hand_total h = hand_total (holds s) + int (nat (kNumCardsLeftOver P) - i)"
  using give_left_over_frame [OF assms] that by blast

lemma ApplyBiddingAction_effect:
  assumes "ApplyBiddingAction P s a = Inr s'"
  shows "dealer_deck s' = dealer_deck s \<and> cards_left_over s' = cards_left_over s \<and>
         history s' = history s \<and> played_deck s' = played_deck s \<and>
         returns s' = returns s \<and> players_hands_played s' = players_hands_played s \<and>
         winning_bid s' = (if a = kPass P then winning_bid s else a - kBiddingActionBase P) \<and>
         (tricks s' = tricks s \<and> holds s' = holds s \<and>
            (phase s' = phase s \<or> phase s' = kGameOver) \<or>
          phase s' = kPlay \<and>
            tricks s' = tricks s @ [Trick_ctor (dizhu s') (kInvalidAction P)] \<and>
            hand_total (holds s') = hand_total (holds s) + int (nat (kNumCardsLeftOver P)))"
  using assms
proof (cases rule: ApplyBiddingAction_cases)
  case game_over
  then show ?thesis by (simp add: advance_def)
next
  case (winner_pass s3)
  from winner_pass(5) obtain h where "s3 = s\<lparr>num_passes := num_passes s + 1, holds := h\<rparr>"
    "hand_total h = hand_total (holds s) + int (nat (kNumCardsLeftOver P))"
    by (rule give_left_over_holds) simp
  with winner_pass show ?thesis by (simp add: finalize_auction_def)
next
  case pass
  then show ?thesis by (simp add: advance_def)
next
  case (winner_bid s3)
  from winner_bid(3) obtain h where
    "s3 = s\<lparr>num_passes := 0, dizhu := current_player s,
           winning_bid := a - kBiddingActionBase P, holds := h\<rparr>"
    "hand_total h = hand_total (holds s) + int (nat (kNumCardsLeftOver P))"
    by (rule give_left_over_holds) simp
  with winner_bid show ?thesis by (simp add: finalize_auction_def)
next
  case bid
  then show ?thesis by (simp add: advance_def)
qed

lemma CurrentTrick_nonempty: "CurrentTrick s = Inr t \<Longrightarrow> tricks s \<noteq> []"
  by (auto simp: CurrentTrick_def in_range_def split: if_splits)

lemma AfterPlayHand_frame:
  assumes "AfterPlayHand P s p a = Inr (s', f)"
  obtains h pd where "s' = s\<lparr>holds := h, played_deck := pd\<rparr>" "length h = length (holds s)"
    "hand_total h + sum_list pd = hand_total (holds s) + sum_list (played_deck s)"
proof -
  from assms have r: "in_range p (length (holds s))"
    and l: "AfterPlayHand_loop P (nat p) (ActionToHand P a) 0 True s = Inr (s', f)"
    by (auto simp: AfterPlayHand_def split: if_splits)
  from AfterPlayHand_loop_frame [OF l in_range_nat [OF r]] that show ?thesis by blast
qed

lemma ApplyPlayAction_effect:
  assumes "ApplyPlayAction P s a = Inr s'"
  shows "dealer_deck s' = dealer_deck s \<and> cards_left_over s' = cards_left_over s \<and>
         history s' = history s \<and> dizhu s' = dizhu s \<and> winning_bid s' = winning_bid s \<and>
         length (tricks s) \<le> length (tricks s') \<and>
         hand_total (holds s') + sum_list (played_deck s') =
           hand_total (holds s) + sum_list (played_deck s) \<and>
         (phase s' = phase s \<and> returns s' = returns s \<or>
          phase s' = kGameOver \<and> tricks s' \<noteq> []) \<and>
         (a \<noteq> kPass P \<longrightarrow> in_range (current_player s) (length (players_hands_played s))) \<and>
         players_hands_played s' =
           (if a = kPass P then players_hands_played s
            else (players_hands_played s)[nat (current_player s) :=
                    players_hands_played s ! nat (current_player s) + 1])"
  using assms
proof (cases rule: ApplyPlayAction_cases)
  case (close t)
  then show ?thesis by simp
next
  case pass
  then show ?thesis by (simp add: advance_def)
next
  case (play t s6)
  from play(4) obtain h pd where "s6 = (played_state P s a t)\<lparr>holds := h, played_deck := pd\<rparr>"
    "hand_total h + sum_list pd =
       hand_total (holds (played_state P s a t)) + sum_list (played_deck (played_state P s a t))"
    by (rule AfterPlayHand_frame)
  with play show ?thesis by (simp add: advance_def played_state_def)
next
  case (out t s6 s7)
  from out(4) obtain h pd where s6: "s6 = (played_state P s a t)\<lparr>holds := h, played_deck := pd\<rparr>"
    "hand_total h + sum_list pd =
       hand_total (holds (played_state P s a t)) + sum_list (played_deck (played_state P s a t))"
    by (rule AfterPlayHand_frame)
  from ScoreUp_frame [OF out(5)] obtain r where
    "s7 = s6\<lparr>final_winner := current_player s6, returns := r\<rparr>" by auto
  moreover from out(3) have "tricks s \<noteq> []" by (rule CurrentTrick_nonempty)
  ultimately show ?thesis using out s6 by (simp add: played_state_def)
qed

lemma ApplyAction_Inr:
  "ApplyAction P s a = Inr s' \<Longrightarrow>
     \<exists>s0. DoApplyAction P s a = Inr s0 \<and> s' = s0\<lparr>history := history s0 @ [a]\<rparr>"
  by (auto simp: ApplyAction_def split: sum.splits)

text \<open>
  What every reachable state satisfies.  The pool, the hands and the ledger of played
  cards together hold the whole deck until the auction ends with a landlord, and the
  deck and the leftover block from then on: the leftover cards are copied into the
  landlord's hand while they stay in the pool.  No trick exists before the play phase,
  and one exists throughout it.  The leftover block is empty during the deal.  The
  returns are all 0 unless the game ended in the play phase.
\<close>

lemma reachable_invariant:
  assumes "reachable P s"
  shows "(0 \<le> kNumCards P \<and> 0 \<le> kNumCardsLeftOver P \<longrightarrow>
          sum_list (dealer_deck s) + hand_total (holds s) + sum_list (played_deck s) =
            kNumCards P + (if tricks s = [] then 0 else kNumCardsLeftOver P)) \<and>
         (phase s = kDeal \<or> phase s = kAuction \<longrightarrow> tricks s = []) \<and>
         (phase s = kPlay \<longrightarrow> tricks s \<noteq> []) \<and>
         (phase s = kDeal \<longrightarrow> cards_left_over s = []) \<and>
         (phase s \<noteq> kGameOver \<or> tricks s = [] \<longrightarrow> returns s = replicate 3 0)"
  using assms
proof (induction rule: reachable.induct)
  case reachable_init
  show ?case by (simp add: NewInitialState_def hand_total_def sum_list_replicate)
next
  case (reachable_step s acts a s')
  from ApplyAction_Inr [OF reachable_step.hyps(4)] obtain s0 where
    d: "DoApplyAction P s a = Inr s0" and s': "s' = s0\<lparr>history := history s0 @ [a]\<rparr>" by blast
  note ih = reachable_step.IH
  show ?case
  proof (cases "phase s")
    case kDeal
    with d have "ApplyDealAction P s a = Inr s0" by (simp add: DoApplyAction_def)
    from ApplyDealAction_frame [OF this] ih kDeal s' show ?thesis by auto
  next
    case kAuction
    with d have "ApplyBiddingAction P s a = Inr s0" by (simp add: DoApplyAction_def)
    from ApplyBiddingAction_effect [OF this] ih kAuction s' show ?thesis by auto
  next
    case kPlay
    with d have "ApplyPlayAction P s a = Inr s0" by (simp add: DoApplyAction_def)
    from ApplyPlayAction_effect [OF this] ih kPlay s' show ?thesis by auto
  next
    case kGameOver
    with d show ?thesis by (simp add: DoApplyAction_def)
  qed
qed

text \<open>The host's function stays within the reachable states.\<close>

lemma play_legal_append:
  "play_legal P s (as @ bs) =
     (case play_legal P s as of Inl e \<Rightarrow> Inl e | Inr s' \<Rightarrow> play_legal P s' bs)"
  by (induction as arbitrary: s) (auto split: sum.splits)

lemma play_legal_reachable:
  "reachable P s \<Longrightarrow> play_legal P s as = Inr s' \<Longrightarrow> reachable P s'"
proof (induction as arbitrary: s)
  case Nil
  then show ?case by simp
next
  case (Cons a as)
  from Cons.prems(2) obtain acts s1 where
    "LegalActions P s = Inr acts" "a \<in> set acts" "ApplyAction P s a = Inr s1"
    "play_legal P s1 as = Inr s'"
    by (auto split: sum.splits if_splits)
  with Cons.prems(1) Cons.IH show ?case
    by (blast intro: reachable_step)
qed

section \<open>Reachable states are well-shaped\<close>

lemma map_length_update_row:
  "length row = length (h ! p) \<Longrightarrow> map length (h[p := row]) = map length h"
  by (cases "p < length h") (auto simp: list_eq_iff_nth_eq nth_list_update)

lemma map_length_incr2 [simp]: "map length (incr2 h p r) = map length h"
  by (simp add: incr2_def map_length_update_row)

lemma give_left_over_shape:
  "give_left_over P s i = Inr s' \<Longrightarrow> map length (holds s') = map length (holds s)"
proof (induction P s i rule: give_left_over.induct)
  case (1 P s i)
  note eq = give_left_over.simps [of P s i]
  show ?case
  proof (cases "int i < kNumCardsLeftOver P")
    case False
    with "1.prems" eq show ?thesis by simp
  next
    case True
    from "1.prems" eq True
    have b1: "i < length (cards_left_over s) \<and> in_range (dizhu s) (length (holds s))"
      and b2: "in_range (cards_left_over s ! i) (length (holds s ! nat (dizhu s)))"
      by (auto split: if_splits)
    from "1.prems" eq True b1 b2 have
      "give_left_over P
         (s\<lparr>holds := incr2 (holds s) (nat (dizhu s)) (nat (cards_left_over s ! i))\<rparr>)
         (i + 1) = Inr s'"
      by simp
    from "1.IH" [OF True _ _ this] b1 b2 show ?thesis by simp
  qed
qed

lemma AfterPlayHand_loop_shape:
  "AfterPlayHand_loop P p used r flag s = Inr (s', f) \<Longrightarrow>
     map length (holds s') = map length (holds s)"
proof (induction P p used r flag s rule: AfterPlayHand_loop.induct)
  case (1 P player used_hand rank flag s)
  note eq = AfterPlayHand_loop.simps [of P player used_hand rank flag s]
  show ?case
  proof (cases "int rank < kNumRanks P")
    case False
    with "1.prems" eq show ?thesis by simp
  next
    case True
    from "1.prems" eq True
    have b: "rank < length (holds s ! player) \<and> rank < length used_hand \<and>
        rank < length (played_deck s)"
      and ge: "used_hand ! rank \<le> holds s ! player ! rank"
      by (auto split: if_splits)
    have bb: "\<not> \<not> (rank < length (holds s ! player) \<and> rank < length used_hand \<and>
                rank < length (played_deck s))" using b by simp
    have gg: "\<not> \<not> used_hand ! rank \<le> holds s ! player ! rank" using ge by simp
    have sh: "map length ((holds s)[player :=
                 (holds s ! player)[rank := holds s ! player ! rank - used_hand ! rank]]) =
              map length (holds s)"
      by (simp add: map_length_update_row)
    from "1.IH" [OF True bb gg refl refl refl] "1.prems" eq True b ge sh
    show ?thesis by (simp add: Let_def)
  qed
qed

lemma AfterPlayHand_shape:
  "AfterPlayHand P s p a = Inr (s', f) \<Longrightarrow> map length (holds s') = map length (holds s)"
  by (auto simp: AfterPlayHand_def split: if_splits dest: AfterPlayHand_loop_shape)

lemma ScoreUp_returns_length:
  "ScoreUp P s = Inr s' \<Longrightarrow> length (returns s') = length (returns s)"
  unfolding ScoreUp_def Let_def by (auto split: if_splits sum.splits)

lemma DealLegalActions_slots_mem:
  "a \<in> set (DealLegalActions_slots P i) \<Longrightarrow> int i \<le> a"
proof (induction P i rule: DealLegalActions_slots.induct)
  case (1 P i)
  then show ?case
    by (subst (asm) (2) DealLegalActions_slots.simps) (auto split: if_splits)
qed

lemma DealLegalActions_cards_mem:
  "a \<in> set (DealLegalActions_cards P deck i) \<Longrightarrow>
     \<exists>j. j < length deck \<and> int j < kNumCards P \<and> deck ! j \<noteq> 0 \<and>
         a = int j + kDealingActionBase P"
proof (induction P deck i rule: DealLegalActions_cards.induct)
  case (1 P deck i)
  then show ?case
    by (subst (asm) (2) DealLegalActions_cards.simps) (auto split: if_splits)
qed

lemma left_over_loop_spec:
  "length deck = nat (kNumCards P) \<Longrightarrow> \<forall>x \<in> set deck. x = 0 \<or> x = 1 \<Longrightarrow>
     int (length (left_over_loop P deck i)) = sum_list (drop i deck) \<and>
     (\<forall>r \<in> set (left_over_loop P deck i). \<exists>c. 0 \<le> c \<and> c < kNumCards P \<and> r = CardToRank P c)"
proof (induction P deck i rule: left_over_loop.induct)
  case (1 P deck i)
  note eq = left_over_loop.simps [of P deck i]
  show ?case
  proof (cases "int i < kNumCards P \<and> i < length deck")
    case False
    with "1.prems"(1) have "length deck \<le> i" by auto
    with False eq show ?thesis by simp
  next
    case True
    then have dr: "drop i deck = deck ! i # drop (i + 1) deck"
      by (simp add: Cons_nth_drop_Suc)
    from True "1.prems"(2) have v: "deck ! i = 0 \<or> deck ! i = 1" by simp
    have w: "\<exists>c. 0 \<le> c \<and> c < kNumCards P \<and> CardToRank P (int i) = CardToRank P c"
      using True by (intro exI [of _ "int i"]) simp
    from "1.IH" [OF True "1.prems"] v True w show ?thesis
      by (auto simp: eq dr)
  qed
qed

lemma PlayLegalActions_pass:
  assumes "PlayLegalActions P s = Inr acts" and "kPass P \<in> set acts"
    and "\<forall>hand prev. kPass P \<notin> set (SearchForLegalActions P hand prev)"
  shows "\<not> new_trick_begin s"
  using assms
  by (auto simp: PlayLegalActions_def Let_def split: if_splits sum.splits)

lemma ApplyDealAction_cases:
  assumes "ApplyDealAction P s a = Inr s'"
  obtains
    (face_up) "card_face_up_position s = - 1" "s' = s\<lparr>card_face_up_position := a\<rparr>"
  | (deal) "card_face_up_position s \<noteq> - 1" "history s \<noteq> []"
      "(length (history s) - 1) mod 3 < length (holds s)"
      "in_range (CardToRank P (a - kDealingActionBase P))
         (length (holds s ! ((length (history s) - 1) mod 3)))"
      "in_range (a - kDealingActionBase P) (length (dealer_deck s))"
      "int (length (history s)) \<noteq> kNumCards P - kNumCardsLeftOver P"
      "s' = dealt_state P s a"
  | (last_deal) "card_face_up_position s \<noteq> - 1" "history s \<noteq> []"
      "(length (history s) - 1) mod 3 < length (holds s)"
      "in_range (CardToRank P (a - kDealingActionBase P))
         (length (holds s ! ((length (history s) - 1) mod 3)))"
      "in_range (a - kDealingActionBase P) (length (dealer_deck s))"
      "int (length (history s)) = kNumCards P - kNumCardsLeftOver P"
      "0 \<le> first_player (dealt_state P s a)" "first_player (dealt_state P s a) \<le> kNumPlayers"
      "s' = (dealt_state P s a)\<lparr>phase := kAuction,
              current_player := first_player (dealt_state P s a),
              cards_left_over := cards_left_over s @
                left_over_loop P (dealer_deck (dealt_state P s a)) 0\<rparr>"
proof (cases "card_face_up_position s = - 1")
  case True
  with assms have "s' = s\<lparr>card_face_up_position := a\<rparr>"
    by (simp add: ApplyDealAction_def)
  with True show ?thesis by (rule face_up)
next
  case False
  from assms False have ne: "history s \<noteq> []"
    by (auto simp: ApplyDealAction_def split: if_splits)
  from assms False ne have b: "(length (history s) - 1) mod 3 < length (holds s)"
      "in_range (CardToRank P (a - kDealingActionBase P))
         (length (holds s ! ((length (history s) - 1) mod 3)))"
      "in_range (a - kDealingActionBase P) (length (dealer_deck s))"
    unfolding ApplyDealAction_def Let_def
    by (simp_all split: if_splits)
  show ?thesis
  proof (cases "int (length (history s)) = kNumCards P - kNumCardsLeftOver P")
    case True
    with assms False ne b have
      "0 \<le> first_player (dealt_state P s a)" "first_player (dealt_state P s a) \<le> kNumPlayers"
      "s' = (dealt_state P s a)\<lparr>phase := kAuction,
              current_player := first_player (dealt_state P s a),
              cards_left_over := cards_left_over s @
                left_over_loop P (dealer_deck (dealt_state P s a)) 0\<rparr>"
      unfolding ApplyDealAction_def dealt_state_def Let_def
      by (simp_all split: if_splits)
    with False ne b True show ?thesis by (intro last_deal)
  next
    case nt: False
    with assms False ne b have "s' = dealt_state P s a"
      unfolding ApplyDealAction_def dealt_state_def Let_def
      by (simp split: if_splits)
    with False ne b nt show ?thesis by (intro deal)
  qed
qed

lemma smod3_range: "0 \<le> x \<Longrightarrow> in_range (x smod 3) 3"
  by (cases "x = 0") (simp_all add: signed_modulo_int_def in_range_def sgn_if)

lemma advance_range: "in_range p 3 \<Longrightarrow> in_range ((p + 1) smod kNumPlayers) 3"
  unfolding kNumPlayers_def by (rule smod3_range) (simp add: in_range_def)

lemma dealt_state_fields:
  "phase (dealt_state P s a) = phase s"
  "winning_bid (dealt_state P s a) = winning_bid s"
  "num_passes (dealt_state P s a) = num_passes s"
  "trick_played (dealt_state P s a) = trick_played s"
  "tricks (dealt_state P s a) = tricks s"
  "history (dealt_state P s a) = history s"
  "cards_left_over (dealt_state P s a) = cards_left_over s"
  "players_hands_played (dealt_state P s a) = players_hands_played s"
  "returns (dealt_state P s a) = returns s"
  "card_face_up_position (dealt_state P s a) = card_face_up_position s"
  "holds (dealt_state P s a) =
     incr2 (holds s) ((length (history s) - 1) mod 3)
       (nat (CardToRank P (a - kDealingActionBase P)))"
  "dealer_deck (dealt_state P s a) =
     (dealer_deck s)[nat (a - kDealingActionBase P) :=
        dealer_deck s ! nat (a - kDealingActionBase P) - 1]"
  "first_player (dealt_state P s a) =
     (if int (length (history s)) - 1 = history s ! 0
      then (int (length (history s)) - 1) smod kNumPlayers else first_player s)"
  by (simp_all add: dealt_state_def Let_def)

lemma state_ok_dealt:
  assumes ok: "state_ok P s" and ph: "phase s = kDeal"
    and cfu: "card_face_up_position s \<noteq> - 1"
    and legal: "a \<in> set (DealLegalActions_cards P (dealer_deck s) 0)"
  shows "length (dealer_deck (dealt_state P s a)) = nat (kNumCards P)"
    and "\<forall>x \<in> set (dealer_deck (dealt_state P s a)). x = 0 \<or> x = 1"
    and "sum_list (dealer_deck (dealt_state P s a)) = kNumCards P - int (length (history s))"
    and "first_player (dealt_state P s a) = kInvalidPlayer P \<or>
         in_range (first_player (dealt_state P s a)) 3"
    and "history s \<noteq> []"
proof -
  from ok ph cfu have h: "history s \<noteq> []"
    and sm: "sum_list (dealer_deck s) = kNumCards P - (int (length (history s)) - 1)"
    and ln: "length (dealer_deck s) = nat (kNumCards P)"
    and zo: "\<forall>x \<in> set (dealer_deck s). x = 0 \<or> x = 1"
    and fp: "first_player s = kInvalidPlayer P \<or> in_range (first_player s) 3"
    by (simp_all add: state_ok_def)
  from DealLegalActions_cards_mem [OF legal] obtain j where
    j: "j < length (dealer_deck s)" "dealer_deck s ! j \<noteq> 0" "a = int j + kDealingActionBase P"
    by blast
  from j zo have one: "dealer_deck s ! j = 1" by (metis nth_mem)
  have c: "nat (a - kDealingActionBase P) = j" using j by simp
  show "length (dealer_deck (dealt_state P s a)) = nat (kNumCards P)"
    using ln by (simp add: dealt_state_fields)
  show "\<forall>x \<in> set (dealer_deck (dealt_state P s a)). x = 0 \<or> x = 1"
    using zo one set_update_subset_insert [of "dealer_deck s" j 0]
    by (auto simp: dealt_state_fields c)
  show "sum_list (dealer_deck (dealt_state P s a)) = kNumCards P - int (length (history s))"
    using sm one j by (simp add: dealt_state_fields c sum_list_update_int)
  from h have "0 \<le> int (length (history s)) - 1" by (cases "history s") simp_all
  then have "in_range ((int (length (history s)) - 1) smod kNumPlayers) 3"
    unfolding kNumPlayers_def by (rule smod3_range)
  with fp show "first_player (dealt_state P s a) = kInvalidPlayer P \<or>
         in_range (first_player (dealt_state P s a)) 3"
    by (auto simp: dealt_state_fields)
  show "history s \<noteq> []" by (rule h)
qed

lemma state_ok_deal_step:
  assumes wf: "wf_params P" and ok: "state_ok P s" and ph: "phase s = kDeal"
    and lo: "cards_left_over s = []"
    and legal: "LegalActions P s = Inr acts" "a \<in> set acts"
    and step: "ApplyDealAction P s a = Inr s0"
  shows "state_ok P (s0\<lparr>history := history s0 @ [a]\<rparr>)"
  using step
proof (cases rule: ApplyDealAction_cases)
  case face_up
  from legal ph face_up(1) have "a \<in> set (DealLegalActions_slots P 0)"
    by (simp add: LegalActions_def DealLegalActions_def)
  from DealLegalActions_slots_mem [OF this] have "a \<noteq> - 1" by simp
  with ok ph face_up show ?thesis
    by (simp add: state_ok_def)
next
  case deal
  from legal ph deal(1) have l: "a \<in> set (DealLegalActions_cards P (dealer_deck s) 0)"
    by (auto simp: LegalActions_def DealLegalActions_def split: if_splits)
  note d = state_ok_dealt [OF ok ph deal(1) l]
  from ok ph have g: "map length (holds s) = replicate 3 (nat (kNumRanks P))"
    "length (players_hands_played s) = 3" "length (returns s) = 3"
    "winning_bid s = 0" "num_passes s = 0" "trick_played s = 0"
    by (simp_all add: state_ok_def)
  show ?thesis
    unfolding state_ok_def deal(7)
    using d g ph deal(1) by (simp add: dealt_state_fields)
next
  case last_deal
  from legal ph last_deal(1) have l: "a \<in> set (DealLegalActions_cards P (dealer_deck s) 0)"
    by (auto simp: LegalActions_def DealLegalActions_def split: if_splits)
  note d = state_ok_dealt [OF ok ph last_deal(1) l]
  from ok ph have g: "map length (holds s) = replicate 3 (nat (kNumRanks P))"
    "length (players_hands_played s) = 3" "length (returns s) = 3"
    "winning_bid s = 0" "num_passes s = 0" "trick_played s = 0"
    by (simp_all add: state_ok_def)
  let ?lo = "left_over_loop P (dealer_deck (dealt_state P s a)) 0"
  note sp = left_over_loop_spec [OF d(1) d(2), of 0]
  have len: "int (length ?lo) = kNumCardsLeftOver P"
    using sp d(3) last_deal(6) by simp
  have rk: "\<forall>r \<in> set ?lo. in_range r (nat (kNumRanks P))"
    using sp wf by (auto simp: wf_params_def)
  from wf have "kInvalidPlayer P < 0" by (simp add: wf_params_def)
  with d(4) last_deal(7) have fp: "in_range (first_player (dealt_state P s a)) 3"
    by auto
  show ?thesis
    unfolding state_ok_def last_deal(9)
    using d(1,2) g len rk fp lo by (simp add: dealt_state_fields)
qed

lemma state_ok_bid_step:
  assumes ok: "state_ok P s" and ph: "phase s = kAuction" and tr: "tricks s = []"
    and legal: "a \<in> set (BiddingLegalActions P s)"
    and step: "ApplyBiddingAction P s a = Inr s0"
  shows "state_ok P (s0\<lparr>history := history s0 @ [a]\<rparr>)"
proof -
  from ok ph have g: "length (dealer_deck s) = nat (kNumCards P)"
    "\<forall>x \<in> set (dealer_deck s). x = 0 \<or> x = 1"
    "map length (holds s) = replicate 3 (nat (kNumRanks P))"
    "length (players_hands_played s) = 3" "length (returns s) = 3"
    "int (length (cards_left_over s)) = kNumCardsLeftOver P"
    "\<forall>r \<in> set (cards_left_over s). in_range r (nat (kNumRanks P))"
    and au: "in_range (current_player s) 3" "0 \<le> winning_bid s"
    "0 < winning_bid s \<longrightarrow> in_range (dizhu s) 3" "trick_played s = 0"
    by (simp_all add: state_ok_def)
  note adv = advance_range [OF au(1)]
  from legal have bidv: "a \<noteq> kPass P \<Longrightarrow> 0 < a - kBiddingActionBase P"
    unfolding set_BiddingLegalActions using au(2) by auto
  from step show ?thesis
  proof (cases rule: ApplyBiddingAction_cases)
    case game_over
    then show ?thesis using g by (simp add: state_ok_def advance_def)
  next
    case (winner_pass s3)
    define h where "h = holds s3"
    have s3: "s3 = s\<lparr>num_passes := num_passes s + 1, holds := h\<rparr>"
      using give_left_over_frame [OF winner_pass(5)] by (simp add: h_def)
    have sh: "map length h = map length (holds s)"
      using give_left_over_shape [OF winner_pass(5)] by (simp add: h_def)
    show ?thesis
      unfolding winner_pass(6) s3
      using g au winner_pass(4) sh tr by (simp add: state_ok_def finalize_auction_def)
  next
    case pass
    then show ?thesis using g au adv ph by (simp add: state_ok_def advance_def)
  next
    case (winner_bid s3)
    define h where "h = holds s3"
    have s3: "s3 = s\<lparr>num_passes := 0, dizhu := current_player s,
           winning_bid := a - kBiddingActionBase P, holds := h\<rparr>"
      using give_left_over_frame [OF winner_bid(3)] by (simp add: h_def)
    have sh: "map length h = map length (holds s)"
      using give_left_over_shape [OF winner_bid(3)] by (simp add: h_def)
    show ?thesis
      unfolding winner_bid(4) s3
      using g au sh tr by (simp add: state_ok_def finalize_auction_def)
  next
    case bid
    with bidv have "0 < a - kBiddingActionBase P" by simp
    with bid show ?thesis using g au adv ph by (simp add: state_ok_def advance_def)
  qed
qed

lemma last_update_last: "xs \<noteq> [] \<Longrightarrow> last (xs[length xs - 1 := y]) = y"
  by (simp add: last_conv_nth)

lemma state_ok_play_step:
  assumes wf: "wf_params P" and ok: "state_ok P s" and ph: "phase s = kPlay"
    and legal: "PlayLegalActions P s = Inr acts" "a \<in> set acts"
    and step: "ApplyPlayAction P s a = Inr s0"
  shows "state_ok P (s0\<lparr>history := history s0 @ [a]\<rparr>)"
proof -
  from ok ph have g: "length (dealer_deck s) = nat (kNumCards P)"
    "\<forall>x \<in> set (dealer_deck s). x = 0 \<or> x = 1"
    "map length (holds s) = replicate 3 (nat (kNumRanks P))"
    "length (players_hands_played s) = 3" "length (returns s) = 3"
    "int (length (cards_left_over s)) = kNumCardsLeftOver P"
    "\<forall>r \<in> set (cards_left_over s). in_range r (nat (kNumRanks P))"
    and pl: "in_range (current_player s) 3" "in_range (dizhu s) 3"
    "0 \<le> trick_played s \<and> trick_played s + 1 = int (length (tricks s))"
    "\<not> new_trick_begin s \<longrightarrow> in_range (winning_player (last (tricks s))) 3"
    "new_trick_begin s \<longrightarrow> num_passes s = 0"
    "num_passes s = 0 \<or> num_passes s = 1"
    by (simp_all add: state_ok_def)
  note adv = advance_range [OF pl(1)]
  from pl(3) have ne: "tricks s \<noteq> []" by auto
  from pl(3) have tp: "nat (trick_played s) = length (tricks s) - 1" by auto
  have cur: "t = last (tricks s)" if "CurrentTrick s = Inr t" for t
    using that ne tp by (auto simp: CurrentTrick_def last_conv_nth split: if_splits)
  have nopass: "a = kPass P \<Longrightarrow> \<not> new_trick_begin s"
    using PlayLegalActions_pass [OF legal(1)] legal(2) wf by (simp add: wf_params_def)
  from step show ?thesis
  proof (cases rule: ApplyPlayAction_cases)
    case (close t)
    from nopass close(1) pl(4) cur [OF close(3)]
    have "in_range (Winner t) 3" by (simp add: Winner_def)
    with close show ?thesis using g pl ph by (simp add: state_ok_def)
  next
    case pass
    from nopass pass(1) have n: "\<not> new_trick_begin s" by simp
    from pass(2) pl(6) have "num_passes s = 0" by (auto simp: kNumPlayers_def)
    with pass n show ?thesis using g pl adv ph by (simp add: state_ok_def advance_def)
  next
    case (play t s6)
    from play(4) obtain h pd where
      s6: "s6 = (played_state P s a t)\<lparr>holds := h, played_deck := pd\<rparr>"
      by (rule AfterPlayHand_frame)
    from AfterPlayHand_shape [OF play(4)] s6
    have sh: "map length h = map length (holds s)" by (simp add: played_state_def)
    have lt: "last ((tricks s)[length (tricks s) - 1 := Trick_Play t (current_player s) a]) =
        Trick_Play t (current_player s) a"
      using ne by (rule last_update_last)
    show ?thesis
      unfolding play(5) s6
      using g pl adv sh lt tp ph
      by (simp add: state_ok_def advance_def played_state_def Trick_Play_def)
  next
    case (out t s6 s7)
    from out(4) obtain h pd where
      s6: "s6 = (played_state P s a t)\<lparr>holds := h, played_deck := pd\<rparr>"
      by (rule AfterPlayHand_frame)
    from AfterPlayHand_shape [OF out(4)] s6
    have sh: "map length h = map length (holds s)" by (simp add: played_state_def)
    from ScoreUp_frame [OF out(5)] obtain r where
      s7: "s7 = s6\<lparr>final_winner := current_player s6, returns := r\<rparr>" by auto
    from ScoreUp_returns_length [OF out(5)] s7 s6
    have lr: "length r = length (returns s)" by (simp add: played_state_def)
    show ?thesis
      unfolding out(6) s7 s6
      using g sh lr ph by (simp add: state_ok_def played_state_def)
  qed
qed

text \<open>With well-formed parameters every reachable state is well-shaped.\<close>

lemma reachable_state_ok:
  assumes wf: "wf_params P" and r: "reachable P s"
  shows "state_ok P s"
  using r
proof (induction rule: reachable.induct)
  case reachable_init
  from wf have "0 \<le> kNumCards P" by (simp add: wf_params_def)
  then show ?case
    by (simp add: state_ok_def NewInitialState_def sum_list_replicate)
next
  case (reachable_step s acts a s')
  from ApplyAction_Inr [OF reachable_step.hyps(4)] obtain s0 where
    d: "DoApplyAction P s a = Inr s0" and s': "s' = s0\<lparr>history := history s0 @ [a]\<rparr>" by blast
  note ok = reachable_step.IH
  note inv = reachable_invariant [OF reachable_step.hyps(1)]
  show ?case
  proof (cases "phase s")
    case kDeal
    with d have st: "ApplyDealAction P s a = Inr s0" by (simp add: DoApplyAction_def)
    from inv kDeal have "cards_left_over s = []" by simp
    from state_ok_deal_step [OF wf ok kDeal this reachable_step.hyps(2,3) st] s'
    show ?thesis by simp
  next
    case kAuction
    with d have st: "ApplyBiddingAction P s a = Inr s0" by (simp add: DoApplyAction_def)
    from inv kAuction have tr: "tricks s = []" by simp
    from reachable_step.hyps(2,3) kAuction have "a \<in> set (BiddingLegalActions P s)"
      by (simp add: LegalActions_def)
    from state_ok_bid_step [OF ok kAuction tr this st] s' show ?thesis by simp
  next
    case kPlay
    with d have st: "ApplyPlayAction P s a = Inr s0" by (simp add: DoApplyAction_def)
    from reachable_step.hyps(2) kPlay have "PlayLegalActions P s = Inr acts"
      by (simp add: LegalActions_def)
    from state_ok_play_step [OF wf ok kPlay this reachable_step.hyps(3) st] s'
    show ?thesis by simp
  next
    case kGameOver
    with d show ?thesis by (simp add: DoApplyAction_def)
  qed
qed

lemma wf_std_params: "wf_params std_params"
proof -
  have "in_range (std_CardToRank c) 15" if "0 \<le> c" "c < 54" for c
  proof (cases "c = 0")
    case True
    then show ?thesis by (simp add: std_CardToRank_def in_range_def)
  next
    case False
    with that have "0 < c" by simp
    then have "c smod 13 = c mod 13" by (simp add: signed_modulo_int_def)
    then show ?thesis using that by (auto simp: std_CardToRank_def in_range_def)
  qed
  moreover have "105 \<notin> set (std_Search hand prev)" for hand prev
    by (auto simp: std_Search_def)
  ultimately show ?thesis by (simp add: wf_params_def std_params_def)
qed

section \<open>The scenarios are runs of the host\<close>

lemma deal_run:
  "play_legal std_params (NewInitialState std_params) deal_actions = Inr after_deal"
  by code_simp

lemma two_passes_run: "play_legal std_params after_deal [105, 105] = Inr after_two_passes"
  by code_simp

lemma bid1_pass_run: "play_legal std_params after_deal [106, 105] = Inr after_bid1_pass"
  by code_simp


lemma bid3_run: "play_legal std_params after_deal [108] = Inr after_bid3"
  by code_simp

lemma lead_run: "play_legal std_params after_bid3 [109] = Inr after_lead"
  by code_simp

lemma before_close_run: "play_legal std_params after_deal trick0_actions = Inr before_close"
  by code_simp

lemma reachable_after_deal: "reachable std_params after_deal"
  using play_legal_reachable [OF reachable_init deal_run] .

lemma reachable_after_two_passes: "reachable std_params after_two_passes"
  using play_legal_reachable [OF reachable_after_deal two_passes_run] .

lemma reachable_after_bid1_pass: "reachable std_params after_bid1_pass"
  using play_legal_reachable [OF reachable_after_deal bid1_pass_run] .


lemma reachable_after_bid3: "reachable std_params after_bid3"
  using play_legal_reachable [OF reachable_after_deal bid3_run] .

lemma reachable_after_lead: "reachable std_params after_lead"
  using play_legal_reachable [OF reachable_after_bid3 lead_run] .

lemma reachable_before_close: "reachable std_params before_close"
  using play_legal_reachable [OF reachable_after_deal before_close_run] .

section \<open>The claims about single steps and about the card counts\<close>

text \<open>
  Claim C10.  In the Auction phase a Pass that does not end the auction (it is not the
  third pass when nobody has bid, and not the second pass after a bid) changes the
  counter of consecutive passes, which goes up by one, and the current player, who
  advances round-robin, and nothing else: the resulting state is the old one with these
  two fields updated, so the hands, the pool, the leftover block, the winning bid, the
  landlord and the tricks are unchanged.
\<close>

theorem C10_auction_pass_frame:
  assumes "phase s = kAuction"
    and "if 0 < winning_bid s then num_passes s + 1 < 2 else num_passes s + 1 < 3"
  shows "DoApplyAction P s (kPass P) =
           Inr (s\<lparr>num_passes := num_passes s + 1,
                  current_player := (current_player s + 1) smod kNumPlayers\<rparr>)"
  using assms
  by (auto simp: DoApplyAction_def ApplyBiddingAction_def advance_def kNumPlayers_def
      split: if_splits)

theorem C10_auction_pass_frame_witness:
  "phase after_deal = kAuction \<and> winning_bid after_deal = 0 \<and> num_passes after_deal = 0 \<and>
   DoApplyAction std_params after_deal (kPass std_params) =
     Inr (after_deal\<lparr>num_passes := 1, current_player := 1\<rparr>)"
proof -
  have h: "phase after_deal = kAuction"
    "if 0 < winning_bid after_deal then num_passes after_deal + 1 < 2
     else num_passes after_deal + 1 < 3"
    by (simp_all add: after_deal_def)
  have v: "winning_bid after_deal = 0" "num_passes after_deal = 0"
    "current_player after_deal = 0"
    by (simp_all add: after_deal_def)
  from C10_auction_pass_frame [OF h, of std_params] h(1) v show ?thesis
    by (simp add: smod3_vals kNumPlayers_def)
qed

text \<open>
  Claim C8.  In every reachable state of the Play phase (the parameters being
  well-formed, so that the enumerator of combinations never produces the Pass id) the
  legal actions exist, and Pass is among them exactly when \<open>new_trick_begin\<close> is false:
  the leader of a freshly opened trick is not offered Pass, every other player is.
\<close>

theorem C8_pass_iff_not_leading:
  assumes "wf_params P" and "reachable P s" and "phase s = kPlay"
  shows "\<exists>acts. LegalActions P s = Inr acts \<and> (kPass P \<in> set acts \<longleftrightarrow> \<not> new_trick_begin s)"
proof -
  from reachable_state_ok [OF assms(1,2)] assms(3)
  have cp: "in_range (current_player s) 3"
    and tp: "0 \<le> trick_played s \<and> trick_played s + 1 = int (length (tricks s))"
    and sh: "map length (holds s) = replicate 3 (nat (kNumRanks P))"
    by (simp_all add: state_ok_def)
  from sh have "length (map length (holds s)) = 3" by simp
  then have l: "length (holds s) = 3" by simp
  from tp have t: "in_range (trick_played s) (length (tricks s))"
    by (simp add: in_range_def)
  from assms(1) have "kPass P \<notin> set (SearchForLegalActions P (holds s ! nat (current_player s))
                         (WinningAction (tricks s ! nat (trick_played s))))"
    by (simp add: wf_params_def)
  with assms(3) cp l t show ?thesis
    by (simp add: LegalActions_def PlayLegalActions_def CurrentTrick_def)
qed

theorem C8_pass_iff_not_leading_witness:
  "wf_params std_params \<and>
   reachable std_params after_bid3 \<and> phase after_bid3 = kPlay \<and> new_trick_begin after_bid3 \<and>
   (\<exists>acts. LegalActions std_params after_bid3 = Inr acts \<and> kPass std_params \<notin> set acts) \<and>
   reachable std_params after_lead \<and> phase after_lead = kPlay \<and> \<not> new_trick_begin after_lead \<and>
   (\<exists>acts. LegalActions std_params after_lead = Inr acts \<and> kPass std_params \<in> set acts)"
proof -
  have v: "phase after_bid3 = kPlay" "phase after_lead = kPlay"
    "new_trick_begin after_bid3" "\<not> new_trick_begin after_lead"
    by (simp_all add: after_bid3_def after_lead_def after_deal_def)
  from C8_pass_iff_not_leading [OF wf_std_params reachable_after_bid3 v(1)]
    C8_pass_iff_not_leading [OF wf_std_params reachable_after_lead v(2)] v
    wf_std_params reachable_after_bid3 reachable_after_lead
  show ?thesis by simp
qed

text \<open>
  Claim C2, as amended.  In every reachable state the pool, the three hands and the
  ledger of played cards together count the whole deck as long as no trick has been
  opened (the Deal and Auction phases, and a game that ended on three passes), and the
  deck plus the leftover block once the auction has ended with a landlord (the Play
  phase and a game that ended there).  The leftover block holds no card during the
  deal and its full size from the end of the deal on; its size is no term of the sum,
  since the leftover cards stay in the pool, and stay listed in the block, after their
  ranks have been added to the landlord's hand.
\<close>

theorem C2_card_counts:
  assumes "wf_params P" and "reachable P s"
  shows "sum_list (dealer_deck s) + hand_total (holds s) + sum_list (played_deck s) =
           kNumCards P + (if tricks s = [] then 0 else kNumCardsLeftOver P) \<and>
         int (length (cards_left_over s)) =
           (if phase s = kDeal then 0 else kNumCardsLeftOver P) \<and>
         (phase s = kDeal \<or> phase s = kAuction \<longrightarrow> tricks s = []) \<and>
         (phase s = kPlay \<longrightarrow> tricks s \<noteq> [])"
proof -
  from assms(1) have "0 \<le> kNumCards P \<and> 0 \<le> kNumCardsLeftOver P"
    by (simp add: wf_params_def)
  moreover from reachable_state_ok [OF assms] have
    "phase s \<noteq> kDeal \<longrightarrow> int (length (cards_left_over s)) = kNumCardsLeftOver P"
    by (simp add: state_ok_def)
  ultimately show ?thesis
    using reachable_invariant [OF assms(2)] by auto
qed

theorem C2_card_counts_witness:
  "wf_params std_params \<and> reachable std_params after_lead \<and> phase after_lead = kPlay \<and>
   sum_list (dealer_deck after_lead) + hand_total (holds after_lead) +
     sum_list (played_deck after_lead) = 54 + 3 \<and>
   int (length (cards_left_over after_lead)) = 3"
proof -
  have v: "phase after_lead = kPlay" "kNumCards std_params = 54"
    "kNumCardsLeftOver std_params = 3"
    by (simp_all add: after_lead_def after_bid3_def after_deal_def std_params_def)
  from C2_card_counts [OF wf_std_params reachable_after_lead] v wf_std_params reachable_after_lead
  show ?thesis by auto
qed

theorem C2_conservation_counterexample:
  "reachable std_params after_deal \<and>
   sum_list (dealer_deck after_deal) + hand_total (holds after_deal) +
     sum_list (played_deck after_deal) + int (length (cards_left_over after_deal)) = 57 \<and>
   kNumCards std_params = 54"
proof -
  have "sum_list (dealer_deck after_deal) + hand_total (holds after_deal) +
     sum_list (played_deck after_deal) + int (length (cards_left_over after_deal)) = 57"
    by (simp add: after_deal_def hand_total_def sum_list_replicate)
  moreover have "kNumCards std_params = 54" by (simp add: std_params_def)
  ultimately show ?thesis using reachable_after_deal by simp
qed

section \<open>The leftover block\<close>

text \<open>When a bidding step opens the play phase, the landlord's hand has gained one card of
  each rank listed in the leftover block, every other hand is as before, and the block
  itself is as before.\<close>

lemma ApplyBiddingAction_transfer:
  assumes "ApplyBiddingAction P s a = Inr s'" and "phase s = kAuction" and "phase s' = kPlay"
  shows "(\<forall>p. p \<noteq> nat (dizhu s') \<longrightarrow> holds s' ! p = holds s ! p) \<and>
         (\<forall>r < length (holds s ! nat (dizhu s')).
            holds s' ! nat (dizhu s') ! r =
            holds s ! nat (dizhu s') ! r +
            int (count_list (take (nat (kNumCardsLeftOver P)) (cards_left_over s)) (int r))) \<and>
         hand_total (holds s') = hand_total (holds s) + int (nat (kNumCardsLeftOver P)) \<and>
         current_player s' = dizhu s' \<and>
         tricks s' = tricks s @ [Trick_ctor (dizhu s') (kInvalidAction P)]"
  using assms(1)
proof (cases rule: ApplyBiddingAction_cases)
  case game_over
  with assms(3) show ?thesis by (simp add: advance_def)
next
  case (winner_pass s3)
  define h where "h = holds s3"
  have "s3 = s\<lparr>num_passes := num_passes s + 1, holds := h\<rparr>"
    "hand_total h = hand_total (holds s) + int (nat (kNumCardsLeftOver P))"
    using give_left_over_frame [OF winner_pass(5)] by (simp_all add: h_def)
  moreover have "(\<forall>p. p \<noteq> nat (dizhu s) \<longrightarrow> h ! p = holds s ! p)"
    "(\<forall>r < length (holds s ! nat (dizhu s)).
        h ! nat (dizhu s) ! r = holds s ! nat (dizhu s) ! r +
        int (count_list (take (nat (kNumCardsLeftOver P)) (cards_left_over s)) (int r)))"
    using give_left_over_rows [OF winner_pass(5)] by (simp_all add: h_def)
  ultimately show ?thesis using winner_pass by (simp add: finalize_auction_def)
next
  case pass
  with assms(2,3) show ?thesis by (simp add: advance_def)
next
  case (winner_bid s3)
  define h where "h = holds s3"
  have "s3 = s\<lparr>num_passes := 0, dizhu := current_player s,
           winning_bid := a - kBiddingActionBase P, holds := h\<rparr>"
    "hand_total h = hand_total (holds s) + int (nat (kNumCardsLeftOver P))"
    using give_left_over_frame [OF winner_bid(3)] by (simp_all add: h_def)
  moreover have "(\<forall>p. p \<noteq> nat (current_player s) \<longrightarrow> h ! p = holds s ! p)"
    "(\<forall>r < length (holds s ! nat (current_player s)).
        h ! nat (current_player s) ! r = holds s ! nat (current_player s) ! r +
        int (count_list (take (nat (kNumCardsLeftOver P)) (cards_left_over s)) (int r)))"
    using give_left_over_rows [OF winner_bid(3)] by (simp_all add: h_def)
  ultimately show ?thesis using winner_bid by (simp add: finalize_auction_def)
next
  case bid
  with assms(2,3) show ?thesis by (simp add: advance_def)
qed


text \<open>
  Claim C7, as amended.  The leftover block is empty in every reachable state of the Deal
  phase.  It is filled at the end of the deal and has its full size in every reachable
  state after the deal; it is never modified afterwards: no step taken outside the Deal
  phase changes it, so it keeps its contents through the auction, the play and the end
  of the game.  At the moment the auction concludes with a winner the block is
  transferred in full to the landlord's hand: for every rank the landlord's count grows
  by the number of leftover cards of that rank, and the other two hands are unchanged.
\<close>

theorem C7_leftover_block:
  assumes "wf_params P" and "reachable P s"
  shows "(phase s = kDeal \<longrightarrow> cards_left_over s = []) \<and>
         (phase s \<noteq> kDeal \<longrightarrow> int (length (cards_left_over s)) = kNumCardsLeftOver P) \<and>
         (\<forall>a s'. phase s \<noteq> kDeal \<and> DoApplyAction P s a = Inr s' \<longrightarrow>
                  cards_left_over s' = cards_left_over s) \<and>
         (\<forall>a s'. phase s = kAuction \<and> DoApplyAction P s a = Inr s' \<and> phase s' = kPlay \<longrightarrow>
            (\<forall>p. p \<noteq> nat (dizhu s') \<longrightarrow> holds s' ! p = holds s ! p) \<and>
            (\<forall>r < length (holds s ! nat (dizhu s')).
               holds s' ! nat (dizhu s') ! r =
               holds s ! nat (dizhu s') ! r + int (count_list (cards_left_over s) (int r))))"
proof -
  note ok = reachable_state_ok [OF assms]
  have len: "phase s \<noteq> kDeal \<longrightarrow> int (length (cards_left_over s)) = kNumCardsLeftOver P"
    using ok by (simp add: state_ok_def)
  have all: "phase s \<noteq> kDeal \<Longrightarrow>
      take (nat (kNumCardsLeftOver P)) (cards_left_over s) = cards_left_over s"
    using len by simp
  show ?thesis
  proof (intro conjI allI impI)
    assume "phase s = kDeal"
    with reachable_invariant [OF assms(2)] show "cards_left_over s = []" by simp
  next
    assume "phase s \<noteq> kDeal"
    with len show "int (length (cards_left_over s)) = kNumCardsLeftOver P" by simp
  next
    fix a s'
    assume h: "phase s \<noteq> kDeal \<and> DoApplyAction P s a = Inr s'"
    show "cards_left_over s' = cards_left_over s"
    proof (cases "phase s")
      case kDeal
      with h show ?thesis by simp
    next
      case kAuction
      with h have "ApplyBiddingAction P s a = Inr s'" by (simp add: DoApplyAction_def)
      from ApplyBiddingAction_effect [OF this] show ?thesis by simp
    next
      case kPlay
      with h have "ApplyPlayAction P s a = Inr s'" by (simp add: DoApplyAction_def)
      from ApplyPlayAction_effect [OF this] show ?thesis by simp
    next
      case kGameOver
      with h show ?thesis by (simp add: DoApplyAction_def)
    qed
  next
    fix a s' p
    assume h: "phase s = kAuction \<and> DoApplyAction P s a = Inr s' \<and> phase s' = kPlay"
      and p: "p \<noteq> nat (dizhu s')"
    from h have "ApplyBiddingAction P s a = Inr s'" by (auto simp: DoApplyAction_def)
    from ApplyBiddingAction_transfer [OF this] h p show "holds s' ! p = holds s ! p" by simp
  next
    fix a s' r
    assume h: "phase s = kAuction \<and> DoApplyAction P s a = Inr s' \<and> phase s' = kPlay"
      and r: "r < length (holds s ! nat (dizhu s'))"
    from h have "ApplyBiddingAction P s a = Inr s'" by (auto simp: DoApplyAction_def)
    from ApplyBiddingAction_transfer [OF this] h r all
    show "holds s' ! nat (dizhu s') ! r =
          holds s ! nat (dizhu s') ! r + int (count_list (cards_left_over s) (int r))"
      by simp
  qed
qed

lemma bid3_step:
  "DoApplyAction std_params after_deal 108 = Inr (after_bid3\<lparr>history := deal_actions\<rparr>)"
  by code_simp

theorem C7_leftover_block_witness:
  "wf_params std_params \<and> reachable std_params after_deal \<and> phase after_deal = kAuction \<and>
   int (length (cards_left_over after_deal)) = 3 \<and>
   DoApplyAction std_params after_deal 108 = Inr (after_bid3\<lparr>history := deal_actions\<rparr>) \<and>
   phase after_bid3 = kPlay \<and>
   cards_left_over after_bid3 = cards_left_over after_deal \<and>
   holds after_bid3 ! 1 = holds after_deal ! 1 \<and>
   holds after_bid3 ! 0 ! 13 = holds after_deal ! 0 ! 13 + 1"
proof -
  let ?s' = "after_bid3\<lparr>history := deal_actions\<rparr>"
  have v: "phase after_deal = kAuction" "phase ?s' = kPlay" "dizhu ?s' = 0"
    "cards_left_over after_deal = [12, 13, 14]" "kNumCardsLeftOver std_params = 3"
    "length (holds after_deal ! 0) = 15"
    by (simp_all add: after_deal_def after_bid3_def std_params_def)
  note t = C7_leftover_block [OF wf_std_params reachable_after_deal]
  from t bid3_step v have "cards_left_over ?s' = cards_left_over after_deal"
    by (metis Phase.distinct(1))
  moreover from t bid3_step v have "holds ?s' ! 1 = holds after_deal ! 1"
    by (metis nat_0 zero_neq_one)
  moreover from t bid3_step v(1,2) have "\<forall>r < length (holds after_deal ! nat (dizhu ?s')).
      holds ?s' ! nat (dizhu ?s') ! r = holds after_deal ! nat (dizhu ?s') ! r +
      int (count_list (cards_left_over after_deal) (int r))"
    by blast
  then have "holds ?s' ! 0 ! 13 = holds after_deal ! 0 ! 13 + 1"
    using v by simp
  moreover from t v have "int (length (cards_left_over after_deal)) = 3"
    by simp
  ultimately show ?thesis
    using reachable_after_deal bid3_step v wf_std_params by simp
qed

theorem C7_leftover_block_counterexample:
  "reachable std_params after_bid3 \<and> phase after_bid3 = kPlay \<and>
   cards_left_over after_bid3 = [12, 13, 14]"
  using reachable_after_bid3 by (simp add: after_bid3_def after_deal_def)

section \<open>Passing in the auction\<close>

text \<open>
  Claim C3.  In a reachable state of the Auction phase, applying Pass first counts the
  pass.  If that makes three consecutive passes, the game goes directly to GameOver:
  the returns are all 0 and stay so, no trick exists, and the hands and the leftover
  block are untouched.  If it makes two consecutive passes while a bid stands, the
  auction ends with the current landlord: the leftover block is added in full to the
  landlord's hand (the other hands are unchanged), the phase becomes Play, trick 0 is
  created as the only trick, with the landlord as its leader and as its winning player
  and with \<open>kInvalidAction\<close> as its winning action, and the landlord is the current
  player.  In every other case the counter is one higher and the auction goes on.
\<close>

theorem C3_auction_pass:
  assumes "wf_params P" and "reachable P s" and "phase s = kAuction"
  shows
    "(num_passes s + 1 = 3 \<longrightarrow>
        DoApplyAction P s (kPass P) =
          Inr (s\<lparr>num_passes := 3, phase := kGameOver,
                 current_player := (current_player s + 1) smod kNumPlayers\<rparr>) \<and>
        returns s = replicate 3 0 \<and> tricks s = []) \<and>
     (num_passes s + 1 = 2 \<and> 0 < winning_bid s \<longrightarrow>
        (\<exists>h t. DoApplyAction P s (kPass P) =
                Inr (s\<lparr>holds := h, phase := kPlay, current_player := dizhu s,
                       new_trick_begin := True, tricks := [t], num_passes := 0\<rparr>) \<and>
             t = Trick_ctor (dizhu s) (kInvalidAction P) \<and>
             leader t = dizhu s \<and> winning_player t = dizhu s \<and>
             winning_action t = kInvalidAction P \<and>
             (\<forall>p. p \<noteq> nat (dizhu s) \<longrightarrow> h ! p = holds s ! p) \<and>
             (\<forall>r < length (holds s ! nat (dizhu s)).
                h ! nat (dizhu s) ! r =
                holds s ! nat (dizhu s) ! r + int (count_list (cards_left_over s) (int r))))) \<and>
     (num_passes s + 1 \<noteq> 3 \<and> \<not> (num_passes s + 1 = 2 \<and> 0 < winning_bid s) \<longrightarrow>
        (\<exists>s'. DoApplyAction P s (kPass P) = Inr s' \<and> num_passes s' = num_passes s + 1 \<and>
              phase s' = kAuction))"
proof -
  note inv = reachable_invariant [OF assms(2)]
  from reachable_state_ok [OF assms(1,2)] assms(3)
  have sh: "map length (holds s) = replicate 3 (nat (kNumRanks P))"
    and len: "int (length (cards_left_over s)) = kNumCardsLeftOver P"
    and rk: "\<forall>r \<in> set (cards_left_over s). in_range r (nat (kNumRanks P))"
    and dz: "0 < winning_bid s \<longrightarrow> in_range (dizhu s) 3"
    by (simp_all add: state_ok_def)
  from sh have "length (map length (holds s)) = 3" by simp
  then have l3: "length (holds s) = 3" by simp
  have all: "take (nat (kNumCardsLeftOver P)) (cards_left_over s) = cards_left_over s"
    using len by simp
  have d: "DoApplyAction P s (kPass P) = ApplyBiddingAction P s (kPass P)"
    using assms(3) by (simp add: DoApplyAction_def)
  have zero: "returns s = replicate 3 0" "tricks s = []"
    using inv assms(3) by simp_all
  have c1: "num_passes s + 1 = 3 \<Longrightarrow>
      DoApplyAction P s (kPass P) =
        Inr (s\<lparr>num_passes := 3, phase := kGameOver,
               current_player := (current_player s + 1) smod kNumPlayers\<rparr>)"
    by (simp add: d ApplyBiddingAction_def advance_def kNumPlayers_def)
  have c3: "num_passes s + 1 \<noteq> 3 \<and> \<not> (num_passes s + 1 = 2 \<and> 0 < winning_bid s) \<Longrightarrow>
      \<exists>s'. DoApplyAction P s (kPass P) = Inr s' \<and> num_passes s' = num_passes s + 1 \<and>
              phase s' = kAuction"
    using assms(3) by (auto simp: d ApplyBiddingAction_def advance_def kNumPlayers_def)
  have c2: "\<exists>h t. DoApplyAction P s (kPass P) =
                Inr (s\<lparr>holds := h, phase := kPlay, current_player := dizhu s,
                       new_trick_begin := True, tricks := [t], num_passes := 0\<rparr>) \<and>
             t = Trick_ctor (dizhu s) (kInvalidAction P) \<and>
             leader t = dizhu s \<and> winning_player t = dizhu s \<and>
             winning_action t = kInvalidAction P \<and>
             (\<forall>p. p \<noteq> nat (dizhu s) \<longrightarrow> h ! p = holds s ! p) \<and>
             (\<forall>r < length (holds s ! nat (dizhu s)).
                h ! nat (dizhu s) ! r =
                holds s ! nat (dizhu s) ! r + int (count_list (cards_left_over s) (int r)))"
    if h: "num_passes s + 1 = 2 \<and> 0 < winning_bid s"
  proof -
    let ?s1 = "s\<lparr>num_passes := num_passes s + 1\<rparr>"
    from h dz have dr: "in_range (dizhu s) 3" by simp
    then have dn: "nat (dizhu s) < length (holds s)" using l3 by (simp add: in_range_nat)
    have "length (holds s ! nat (dizhu s)) = map length (holds s) ! nat (dizhu s)"
      using dn by simp
    also have "\<dots> = nat (kNumRanks P)" using dn l3 by (simp add: sh)
    finally have row: "length (holds s ! nat (dizhu s)) = nat (kNumRanks P)" .
    have "\<exists>s3. give_left_over P ?s1 0 = Inr s3"
      using dr l3 len rk row by (intro give_left_over_total) (simp_all add: all)
    then obtain s3 where g: "give_left_over P ?s1 0 = Inr s3" ..
    define hh where "hh = holds s3"
    have s3: "s3 = s\<lparr>num_passes := num_passes s + 1, holds := hh\<rparr>"
      using give_left_over_frame [OF g] by (simp add: hh_def)
    have rows: "(\<forall>p. p \<noteq> nat (dizhu s) \<longrightarrow> hh ! p = holds s ! p)"
      "(\<forall>r < length (holds s ! nat (dizhu s)).
        hh ! nat (dizhu s) ! r = holds s ! nat (dizhu s) ! r +
        int (count_list (cards_left_over s) (int r)))"
      using give_left_over_rows [OF g] by (simp_all add: hh_def all)
    have "ApplyBiddingAction P s (kPass P) = Inr (finalize_auction P s3)"
      using h g by (simp add: ApplyBiddingAction_def kNumPlayers_def)
    then have "DoApplyAction P s (kPass P) =
                Inr (s\<lparr>holds := hh, phase := kPlay, current_player := dizhu s,
                       new_trick_begin := True,
                       tricks := [Trick_ctor (dizhu s) (kInvalidAction P)],
                       num_passes := 0\<rparr>)"
      using zero(2) by (simp add: d s3 finalize_auction_def)
    moreover have "leader (Trick_ctor (dizhu s) (kInvalidAction P)) = dizhu s"
      "winning_player (Trick_ctor (dizhu s) (kInvalidAction P)) = dizhu s"
      "winning_action (Trick_ctor (dizhu s) (kInvalidAction P)) = kInvalidAction P"
      by (simp_all add: Trick_ctor_def)
    ultimately show ?thesis using rows by blast
  qed
  from c1 c2 c3 zero show ?thesis by blast
qed

theorem C3_auction_pass_witness:
  "wf_params std_params \<and>
   reachable std_params after_two_passes \<and> phase after_two_passes = kAuction \<and>
   num_passes after_two_passes + 1 = 3 \<and>
   DoApplyAction std_params after_two_passes (kPass std_params) =
     Inr (after_two_passes\<lparr>num_passes := 3, phase := kGameOver, current_player := 0\<rparr>) \<and>
   returns after_two_passes = [0, 0, 0] \<and>
   reachable std_params after_bid1_pass \<and> phase after_bid1_pass = kAuction \<and>
   num_passes after_bid1_pass + 1 = 2 \<and> winning_bid after_bid1_pass = 1 \<and>
   (\<exists>h t. DoApplyAction std_params after_bid1_pass (kPass std_params) =
           Inr (after_bid1_pass\<lparr>holds := h, phase := kPlay, current_player := 0,
                  new_trick_begin := True, tricks := [t], num_passes := 0\<rparr>) \<and>
        leader t = 0 \<and> winning_player t = 0 \<and> winning_action t = - 1 \<and>
        h ! 1 = holds after_bid1_pass ! 1 \<and> h ! 0 ! 14 = holds after_bid1_pass ! 0 ! 14 + 1)"
proof -
  have vB: "phase after_two_passes = kAuction" "num_passes after_two_passes + 1 = 3"
    "current_player after_two_passes = 2"
    by (simp_all add: after_two_passes_def after_deal_def)
  have vC: "phase after_bid1_pass = kAuction" "num_passes after_bid1_pass + 1 = 2"
    "winning_bid after_bid1_pass = 1" "dizhu after_bid1_pass = 0"
    "cards_left_over after_bid1_pass = [12, 13, 14]"
    "length (holds after_bid1_pass) = 3" "length (holds after_bid1_pass ! 0) = 15"
    by (simp_all add: after_bid1_pass_def after_deal_def)
  have p: "kNumCardsLeftOver std_params = 3" "kInvalidAction std_params = - 1"
    by (simp_all add: std_params_def)
  note tB = C3_auction_pass [OF wf_std_params reachable_after_two_passes vB(1)]
  note tC = C3_auction_pass [OF wf_std_params reachable_after_bid1_pass vC(1)]
  have B: "DoApplyAction std_params after_two_passes (kPass std_params) =
     Inr (after_two_passes\<lparr>num_passes := 3, phase := kGameOver, current_player := 0\<rparr>) \<and>
     returns after_two_passes = [0, 0, 0]"
    using tB vB by (simp add: smod3_vals kNumPlayers_def numeral_3_eq_3)
  have hyp: "num_passes after_bid1_pass + 1 = 2 \<and> 0 < winning_bid after_bid1_pass"
    using vC by simp
  from tC hyp obtain h t where
    h: "DoApplyAction std_params after_bid1_pass (kPass std_params) =
                Inr (after_bid1_pass\<lparr>holds := h, phase := kPlay,
                       current_player := dizhu after_bid1_pass,
                       new_trick_begin := True, tricks := [t], num_passes := 0\<rparr>)"
      "\<forall>p. p \<noteq> nat (dizhu after_bid1_pass) \<longrightarrow> h ! p = holds after_bid1_pass ! p"
      "\<forall>r < length (holds after_bid1_pass ! nat (dizhu after_bid1_pass)).
                h ! nat (dizhu after_bid1_pass) ! r =
                holds after_bid1_pass ! nat (dizhu after_bid1_pass) ! r +
                int (count_list (cards_left_over after_bid1_pass) (int r))"
      and tr: "leader t = dizhu after_bid1_pass" "winning_player t = dizhu after_bid1_pass"
        "winning_action t = kInvalidAction std_params"
    by blast
  from h(2) vC have h1: "h ! 1 = holds after_bid1_pass ! 1" by simp
  from h(3) vC p have h14: "h ! 0 ! 14 = holds after_bid1_pass ! 0 ! 14 + 1" by simp
  from h(1) tr vC p h1 h14 have C:
    "\<exists>h t. DoApplyAction std_params after_bid1_pass (kPass std_params) =
           Inr (after_bid1_pass\<lparr>holds := h, phase := kPlay, current_player := 0,
                  new_trick_begin := True, tricks := [t], num_passes := 0\<rparr>) \<and>
        leader t = 0 \<and> winning_player t = 0 \<and> winning_action t = - 1 \<and>
        h ! 1 = holds after_bid1_pass ! 1 \<and> h ! 0 ! 14 = holds after_bid1_pass ! 0 ! 14 + 1"
    by auto
  from B C vB vC reachable_after_two_passes reachable_after_bid1_pass wf_std_params
  show ?thesis by simp
qed

section \<open>Bids only go up\<close>

lemma accepted_bids_Nil [simp]: "accepted_bids P s [] = []"
  by (simp add: accepted_bids_def)

lemma winning_bid_trace_Nil [simp]: "winning_bid_trace P s [] = [winning_bid s]"
  by (simp add: winning_bid_trace_def)

text \<open>One legal step of the auction: a Pass keeps the winning bid, a bid raises it to
  the value bid, which is at most the highest bid.\<close>

lemma auction_step_winning_bid:
  assumes "ApplyAction P s a = Inr s'" and "phase s = kAuction"
    and "a \<in> set (BiddingLegalActions P s)"
    and "kPass P \<le> kBiddingActionBase P" and "0 \<le> winning_bid s"
  shows "(a = kPass P \<longrightarrow> winning_bid s' = winning_bid s) \<and>
         (a \<noteq> kPass P \<longrightarrow> winning_bid s < winning_bid s' \<and> winning_bid s' \<le> kNumBids P)"
proof -
  from ApplyAction_Inr [OF assms(1)] obtain s0 where
    d: "DoApplyAction P s a = Inr s0" and s': "s' = s0\<lparr>history := history s0 @ [a]\<rparr>" by blast
  from d assms(2) have "ApplyBiddingAction P s a = Inr s0" by (simp add: DoApplyAction_def)
  from ApplyBiddingAction_effect [OF this]
  have wb: "winning_bid s' = (if a = kPass P then winning_bid s else a - kBiddingActionBase P)"
    by (simp add: s')
  from assms(3) have "a = kPass P \<or>
      (\<exists>v. a = kBiddingActionBase P + v \<and> winning_bid s < v \<and> v \<le> kNumBids P)"
    unfolding set_BiddingLegalActions by auto
  with wb show ?thesis by auto
qed

lemma auction_run_sorted:
  assumes "kPass P \<le> kBiddingActionBase P"
  shows "0 \<le> winning_bid s \<Longrightarrow>
     sorted_wrt (<) (accepted_bids P s as) \<and>
     (\<forall>b \<in> set (accepted_bids P s as). winning_bid s < b \<and> b \<le> kNumBids P) \<and>
     sorted (winning_bid_trace P s as)"
proof (induction as arbitrary: s)
  case Nil
  show ?case by simp
next
  case (Cons a as)
  show ?case
  proof (cases "phase s \<noteq> kAuction \<or> a \<notin> set (BiddingLegalActions P s)")
    case True
    then show ?thesis by (auto simp: accepted_bids_def winning_bid_trace_def)
  next
    case False
    note legal = False
    show ?thesis
    proof (cases "ApplyAction P s a")
      case (Inl e)
      with legal show ?thesis by (auto simp: accepted_bids_def winning_bid_trace_def)
    next
      case (Inr s')
      from legal have l: "phase s = kAuction" "a \<in> set (BiddingLegalActions P s)" by auto
      note st = auction_step_winning_bid [OF Inr l assms Cons.prems]
      then have ge: "winning_bid s \<le> winning_bid s'" by (cases "a = kPass P") auto
      with Cons.prems have "0 \<le> winning_bid s'" by simp
      note ih = Cons.IH [OF this]
      have ab: "accepted_bids P s (a # as) =
          (if a = kPass P then [] else [winning_bid s']) @ accepted_bids P s' as"
        using legal Inr by (simp add: accepted_bids_def)
      have tr: "winning_bid_trace P s (a # as) = winning_bid s # winning_bid_trace P s' as"
        using legal Inr by (simp add: winning_bid_trace_def)
      have tr': "winning_bid_trace P s' as =
          winning_bid s' # map (\<lambda>(a, s'). winning_bid s') (auction_run P s' as)"
        by (simp add: winning_bid_trace_def)
      have "sorted (winning_bid_trace P s (a # as))"
        using ih ge unfolding tr tr' by auto
      moreover have "sorted_wrt (<) (accepted_bids P s (a # as))"
        using ih st unfolding ab by (cases "a = kPass P") auto
      moreover have "\<forall>b \<in> set (accepted_bids P s (a # as)). winning_bid s < b \<and> b \<le> kNumBids P"
        using ih st ge unfolding ab by (cases "a = kPass P") auto
      ultimately show ?thesis by blast
    qed
  qed
qed

text \<open>
  Claim C5.  In the Auction phase the legal actions are exactly Pass and the bids
  \<open>kBiddingActionBase + v\<close> for every \<open>v\<close> with \<open>winning_bid < v \<le> kNumBids\<close>.  So,
  wherever the Pass id lies below the bid ids and the winning bid starts non-negative,
  along any run of legal actions through one auction the accepted bids are strictly
  increasing (each above the winning bid the auction started with, none above the
  highest bid) and the winning bid never decreases.
\<close>

theorem C5_bidding_legal_and_monotone:
  assumes "phase s = kAuction" and "kPass P \<le> kBiddingActionBase P" and "0 \<le> winning_bid s"
  shows "LegalActions P s = Inr (BiddingLegalActions P s) \<and>
         set (BiddingLegalActions P s) =
           {kPass P} \<union> {kBiddingActionBase P + v | v. winning_bid s < v \<and> v \<le> kNumBids P} \<and>
         sorted_wrt (<) (accepted_bids P s as) \<and>
         (\<forall>b \<in> set (accepted_bids P s as). winning_bid s < b \<and> b \<le> kNumBids P) \<and>
         sorted (winning_bid_trace P s as)"
  using assms(1) set_BiddingLegalActions [of P s] auction_run_sorted [OF assms(2,3), of as]
  by (simp add: LegalActions_def)

theorem C5_bidding_legal_and_monotone_witness:
  "phase after_deal = kAuction \<and> winning_bid after_deal = 0 \<and>
   LegalActions std_params after_deal = Inr [105, 106, 107, 108] \<and>
   accepted_bids std_params after_deal [106, 105, 107, 108] = [1, 2, 3] \<and>
   sorted_wrt (<) (accepted_bids std_params after_deal [106, 105, 107, 108]) \<and>
   winning_bid_trace std_params after_deal [106, 105, 107, 108] = [0, 1, 1, 2, 3] \<and>
   sorted (winning_bid_trace std_params after_deal [106, 105, 107, 108])"
proof -
  have h: "phase after_deal = kAuction" "kPass std_params \<le> kBiddingActionBase std_params"
    "0 \<le> winning_bid after_deal"
    by (simp_all add: after_deal_def std_params_def)
  have v: "winning_bid after_deal = 0"
    "BiddingLegalActions std_params after_deal = [105, 106, 107, 108]"
    "accepted_bids std_params after_deal [106, 105, 107, 108] = [1, 2, 3]"
    "winning_bid_trace std_params after_deal [106, 105, 107, 108] = [0, 1, 1, 2, 3]"
    by code_simp+
  from C5_bidding_legal_and_monotone [OF h, of "[106, 105, 107, 108]"] h(1) v
  show ?thesis by simp
qed

section \<open>Applying actions, and closing a trick\<close>




text \<open>Closing a trick, for any parameters: the second pass in a row makes the winner of
  the open trick the current player and appends the default-constructed trick.\<close>

lemma close_trick_effect:
  assumes "phase s = kPlay" and "num_passes s + 1 = kNumPlayers - 1"
    and "CurrentTrick s = Inr t"
  shows "DoApplyAction P s (kPass P) =
           Inr (s\<lparr>num_played := num_played s + 1, num_passes := 0,
                  current_player := Winner t, trick_played := trick_played s + 1,
                  tricks := tricks s @ [default_Trick P], new_trick_begin := True\<rparr>)"
  using assms
  by (simp add: DoApplyAction_def ApplyPlayAction_def Let_def CurrentTrick_def
      split: if_splits)

text \<open>
  Claim C6, at the input where the code departs from it.  After the deal, a bid of 3 by
  seat 0 and the plays 109, 110, Pass, 111, 112, Pass, seat 1 holds trick 0 and seat 0
  passes.  The trick closes: the current player becomes seat 1, the winner; the flag
  \<open>new_trick_begin\<close> is set and the pass counter is 0; a second trick is appended.  Its
  leader, however, is not seat 1 but the invalid player -3 of the default constructor.
\<close>

theorem C6_new_trick_leader:
  "reachable std_params before_close \<and> phase before_close = kPlay \<and>
   CurrentTrick before_close = Inr \<lparr>winning_action = 112, leader = 0, winning_player = 1\<rparr> \<and>
   (\<exists>s'. DoApplyAction std_params before_close (kPass std_params) = Inr s' \<and>
      current_player s' = 1 \<and> new_trick_begin s' \<and> num_passes s' = 0 \<and>
      trick_played s' = 1 \<and> length (tricks s') = 2 \<and>
      leader (tricks s' ! 1) = - 3 \<and> winning_player (tricks s' ! 1) = - 3)"
proof -
  have v: "phase before_close = kPlay" "num_passes before_close + 1 = kNumPlayers - 1"
    "CurrentTrick before_close = Inr \<lparr>winning_action = 112, leader = 0, winning_player = 1\<rparr>"
    by code_simp+
  have d: "default_Trick std_params = \<lparr>winning_action = - 1, leader = - 3, winning_player = - 3\<rparr>"
    by (simp add: std_params_def Trick_ctor_def)
  have t: "length (tricks before_close) = 1" "trick_played before_close = 0"
    by (simp_all add: before_close_def after_bid3_def after_deal_def)
  from close_trick_effect [OF v, of std_params] v d t reachable_before_close
  show ?thesis by (simp add: Winner_def nth_append)
qed

section \<open>The spring condition\<close>

text \<open>One step of the host and the counters \<open>players_hands_played\<close>: a play other than
  Pass in the Play phase adds one to the counter of the acting seat, and every other
  step leaves the counters alone.\<close>

lemma ApplyAction_hands_played:
  assumes "ApplyAction P s a = Inr s'" and "length (players_hands_played s) = 3"
    and "in_range p 3"
  shows "length (players_hands_played s') = 3 \<and>
         players_hands_played s' ! nat p =
           players_hands_played s ! nat p +
           (if phase s = kPlay \<and> a \<noteq> kPass P \<and> current_player s = p then 1 else 0)"
proof -
  from ApplyAction_Inr [OF assms(1)] obtain s0 where
    d: "DoApplyAction P s a = Inr s0" and s': "s' = s0\<lparr>history := history s0 @ [a]\<rparr>" by blast
  show ?thesis
  proof (cases "phase s")
    case kDeal
    with d have "ApplyDealAction P s a = Inr s0" by (simp add: DoApplyAction_def)
    from ApplyDealAction_frame [OF this] kDeal assms(2) s' show ?thesis by simp
  next
    case kAuction
    with d have "ApplyBiddingAction P s a = Inr s0" by (simp add: DoApplyAction_def)
    from ApplyBiddingAction_effect [OF this] kAuction assms(2) s' show ?thesis by simp
  next
    case kPlay
    with d have "ApplyPlayAction P s a = Inr s0" by (simp add: DoApplyAction_def)
    note e = ApplyPlayAction_effect [OF this]
    show ?thesis
    proof (cases "a = kPass P")
      case True
      with e kPlay assms(2) s' show ?thesis by simp
    next
      case False
      with e have r: "in_range (current_player s) (length (players_hands_played s))"
        and u: "players_hands_played s0 = (players_hands_played s)[nat (current_player s) :=
                    players_hands_played s ! nat (current_player s) + 1]"
        by simp_all
      from r assms(3) have "nat (current_player s) = nat p \<longleftrightarrow> current_player s = p"
        by (auto simp: in_range_def)
      moreover from assms(2,3) have "nat p < length (players_hands_played s)"
        by (simp add: in_range_nat)
      ultimately show ?thesis using u False kPlay assms(2) s'
        by (auto simp: nth_list_update)
    qed
  next
    case kGameOver
    with d show ?thesis by (simp add: DoApplyAction_def)
  qed
qed

lemma play_legal_hands_played:
  "play_legal P s as = Inr s' \<Longrightarrow> length (players_hands_played s) = 3 \<Longrightarrow> in_range p 3 \<Longrightarrow>
     length (players_hands_played s') = 3 \<and>
     players_hands_played s' ! nat p = players_hands_played s ! nat p + hands_played_by P s as p"
proof (induction as arbitrary: s)
  case Nil
  then show ?case by simp
next
  case (Cons a as)
  from Cons.prems(1) obtain s1 where a: "ApplyAction P s a = Inr s1"
    and r: "play_legal P s1 as = Inr s'"
    by (auto split: sum.splits if_splits)
  note st = ApplyAction_hands_played [OF a Cons.prems(2,3)]
  from Cons.IH [OF r _ Cons.prems(3)] st a show ?case by simp
qed

text \<open>
  Claim C4, as amended.  At the end of any game the host plays from the initial state,
  with the landlord in seat 0, 1 or 2, the spring condition that settlement evaluates is
  true if and only if the landlord played exactly one hand (one play other than Pass)
  in the whole play phase, or neither of the other two seats ever played a hand.  It
  counts the landlord's hands, not the tricks in which the landlord played.
\<close>

theorem C4_spring_counts_hands:
  assumes "play_legal P (NewInitialState P) as = Inr s" and "in_range (dizhu s) 3"
  shows "is_spring s \<longleftrightarrow>
           hands_played_by P (NewInitialState P) as (dizhu s) = 1 \<or>
           (hands_played_by P (NewInitialState P) as ((dizhu s + 1) smod 3) = 0 \<and>
            hands_played_by P (NewInitialState P) as ((dizhu s + 2) smod 3) = 0)"
proof -
  have l: "length (players_hands_played (NewInitialState P)) = 3"
    and z: "\<And>q. q < 3 \<Longrightarrow> players_hands_played (NewInitialState P) ! q = 0"
    by (simp_all add: NewInitialState_def)
  from assms(2) have "dizhu s = 0 \<or> dizhu s = 1 \<or> dizhu s = 2"
    by (simp add: in_range_def) arith
  then have "in_range ((dizhu s + 1) smod 3) 3 \<and> in_range ((dizhu s + 2) smod 3) 3"
    by (auto simp: smod3_vals in_range_def)
  then have r: "in_range ((dizhu s + 1) smod 3) 3" "in_range ((dizhu s + 2) smod 3) 3"
    by simp_all
  have c: "players_hands_played s ! nat p = hands_played_by P (NewInitialState P) as p"
    if "in_range p 3" for p
    using play_legal_hands_played [OF assms(1) l that] z [OF in_range_nat [OF that]]
    by simp
  show ?thesis
    unfolding is_spring_def c [OF assms(2)] c [OF r(1)] c [OF r(2)] ..
qed

lemma farmer_wins_run:
  "case play_legal std_params (NewInitialState std_params) (deal_actions @ farmer_wins_actions)
   of Inl e \<Rightarrow> False
    | Inr s \<Rightarrow>
        phase s = kGameOver \<and> dizhu s = 0 \<and> final_winner s = 1 \<and> winning_bid s = 3 \<and>
        bombs_played s = 0 \<and> players_hands_played s = [2, 17, 0] \<and> returns s = [- 6, 3, 3]"
  by code_simp

lemma farmer_wins_final:
  "\<exists>s. play_legal std_params (NewInitialState std_params) (deal_actions @ farmer_wins_actions) =
         Inr s \<and>
       phase s = kGameOver \<and> dizhu s = 0 \<and> final_winner s = 1 \<and> winning_bid s = 3 \<and>
       bombs_played s = 0 \<and> players_hands_played s = [2, 17, 0] \<and> returns s = [- 6, 3, 3]"
  using farmer_wins_run by (auto split: sum.splits)

lemma farmer_wins_counts:
  "hands_played_by std_params (NewInitialState std_params)
     (deal_actions @ farmer_wins_actions) 0 = 2"
  "hands_played_by std_params (NewInitialState std_params)
     (deal_actions @ farmer_wins_actions) 1 = 17"
  "tricks_played_in std_params (NewInitialState std_params)
     (deal_actions @ farmer_wins_actions) 0 = [0, 0]"
  by code_simp+

theorem C4_spring_counts_hands_witness:
  "\<exists>s. play_legal std_params (NewInitialState std_params) (deal_actions @ farmer_wins_actions) =
         Inr s \<and>
       dizhu s = 0 \<and> phase s = kGameOver \<and>
       hands_played_by std_params (NewInitialState std_params)
         (deal_actions @ farmer_wins_actions) (dizhu s) = 2 \<and>
       hands_played_by std_params (NewInitialState std_params)
         (deal_actions @ farmer_wins_actions) ((dizhu s + 1) smod 3) = 17 \<and>
       \<not> is_spring s"
proof -
  from farmer_wins_final obtain s where
    run: "play_legal std_params (NewInitialState std_params)
            (deal_actions @ farmer_wins_actions) = Inr s"
    and v: "phase s = kGameOver" "dizhu s = 0"
    by blast
  have r: "in_range (dizhu s) 3" using v by (simp add: in_range_def)
  from C4_spring_counts_hands [OF run r] v farmer_wins_counts
  have "\<not> is_spring s" by (simp add: smod3_vals)
  with run v farmer_wins_counts show ?thesis by (simp add: smod3_vals)
qed

theorem C4_spring_counterexample:
  "(\<exists>s. play_legal std_params (NewInitialState std_params)
           (deal_actions @ farmer_wins_actions) = Inr s \<and>
        phase s = kGameOver \<and> dizhu s = 0 \<and> players_hands_played s = [2, 17, 0] \<and>
        \<not> is_spring s \<and> returns s = [- 6, 3, 3]) \<and>
   tricks_played_in std_params (NewInitialState std_params)
     (deal_actions @ farmer_wins_actions) 0 = [0, 0] \<and>
   spec_is_spring std_params (NewInitialState std_params)
     (deal_actions @ farmer_wins_actions) 0"
proof -
  from farmer_wins_final obtain s where
    run: "play_legal std_params (NewInitialState std_params)
            (deal_actions @ farmer_wins_actions) = Inr s"
    and v: "phase s = kGameOver" "dizhu s = 0" "players_hands_played s = [2, 17, 0]"
      "returns s = [- 6, 3, 3]"
    by blast
  from v have "\<not> is_spring s" by (simp add: is_spring_def smod3_vals)
  moreover have "spec_is_spring std_params (NewInitialState std_params)
     (deal_actions @ farmer_wins_actions) 0"
    by (simp add: spec_is_spring_def farmer_wins_counts)
  ultimately show ?thesis using run v farmer_wins_counts(3) by blast
qed

section \<open>Settlement at the end of the game\<close>

text \<open>What \<open>ScoreUp\<close> has written when it returns with a landlord in seat 0, 1 or 2.\<close>

lemma ScoreUp_result:
  assumes run: "ScoreUp P s = Inr s'"
    and d: "in_range (dizhu s) 3" and inv: "dizhu s \<noteq> kInvalidPlayer P"
    and lr: "length (returns s) = 3"
  shows "s' = s\<lparr>returns := returns s'\<rparr> \<and>
     (let paying = winning_bid s * 2 ^ nat (of_bool (is_spring s) + bombs_played s);
          dizhu_sign = (if final_winner s = dizhu s then 1 else - 1)
      in returns s' ! nat (dizhu s) = dizhu_sign * 2 * paying \<and>
         returns s' ! nat ((dizhu s + 1) smod 3) = - dizhu_sign * paying \<and>
         returns s' ! nat ((dizhu s + 2) smod 3) = - dizhu_sign * paying \<and>
         sum_list (returns s') = 0)"
proof -
  define n where "n = of_bool (is_spring s) + bombs_played s"
  from run inv obtain paying where
    loop: "paying_loop 0 n (winning_bid s) = Inr paying"
    unfolding ScoreUp_def Let_def n_def by (auto split: if_splits sum.splits)
  from paying_loop_result [OF loop] have p: "paying = winning_bid s * 2 ^ nat n" by simp
  define sg :: int where "sg = (if final_winner s = dizhu s then 1 else - 1)"
  from run inv loop have s': "s' = s\<lparr>returns :=
      (returns s)[nat (dizhu s) := sg * 2 * paying,
                  nat ((dizhu s + 1) smod 3) := - sg * paying,
                  nat ((dizhu s + 2) smod 3) := - sg * paying]\<rparr>"
    unfolding ScoreUp_def Let_def n_def [symmetric] sg_def
    by (auto split: if_splits)
  obtain a b c where r: "returns s = [a, b, c]"
    using lr by (auto simp: length_Suc_conv eval_nat_numeral)
  from d have "dizhu s = 0 \<or> dizhu s = 1 \<or> dizhu s = 2"
    by (simp add: in_range_def) arith
  then have vals: "returns s' ! nat (dizhu s) = sg * 2 * paying \<and>
         returns s' ! nat ((dizhu s + 1) smod 3) = - sg * paying \<and>
         returns s' ! nat ((dizhu s + 2) smod 3) = - sg * paying \<and>
         sum_list (returns s') = 0"
    by (auto simp: s' r smod3_vals)
  have "s' = s\<lparr>returns := returns s'\<rparr>" by (subst (1 2) s') simp
  with vals show ?thesis
    by (simp add: Let_def p n_def sg_def)
qed


lemma ApplyDealAction_dizhu:
  assumes "ApplyDealAction P s a = Inr s'"
  shows "dizhu s' = dizhu s"
  using assms
  by (cases rule: ApplyDealAction_cases) (simp_all add: dealt_state_def Let_def)

lemma settlement_ok_bid_step:
  assumes ok: "state_ok P s" and so: "settlement_ok P s" and ph: "phase s = kAuction"
    and legal: "a \<in> set (BiddingLegalActions P s)"
    and step: "ApplyBiddingAction P s a = Inr s0"
  shows "settlement_ok P (s0\<lparr>history := history s0 @ [a]\<rparr>)"
proof -
  from ok ph have wb: "0 \<le> winning_bid s" by (simp add: state_ok_def)
  from so ph have au: "0 \<le> num_passes s" "winning_bid s = 0 \<longrightarrow> dizhu s = kInvalidPlayer P"
    "0 < winning_bid s \<longrightarrow> num_passes s \<le> 1"
    by (simp_all add: settlement_ok_def)
  from legal have bidv: "a \<noteq> kPass P \<Longrightarrow> 0 < a - kBiddingActionBase P"
    unfolding set_BiddingLegalActions using wb by auto
  from step show ?thesis
  proof (cases rule: ApplyBiddingAction_cases)
    case game_over
    from game_over(2) au(3) wb have "winning_bid s = 0"
      by (cases "winning_bid s = 0") (simp_all add: kNumPlayers_def)
    with au(2) game_over(3) show ?thesis
      by (simp add: settlement_ok_def advance_def)
  next
    case (winner_pass s3)
    then show ?thesis by (simp add: settlement_ok_def finalize_auction_def)
  next
    case pass
    with au wb ph show ?thesis
      by (auto simp: settlement_ok_def advance_def kNumPlayers_def)
  next
    case (winner_bid s3)
    then show ?thesis by (simp add: settlement_ok_def finalize_auction_def)
  next
    case bid
    with bidv have "0 < a - kBiddingActionBase P" by simp
    with bid ph show ?thesis by (simp add: settlement_ok_def advance_def)
  qed
qed

lemma settlement_ok_play_step:
  assumes wf: "wf_params P" and ok: "state_ok P s" and ph: "phase s = kPlay"
    and step: "ApplyPlayAction P s a = Inr s0"
  shows "settlement_ok P (s0\<lparr>history := history s0 @ [a]\<rparr>)"
  using step
proof (cases rule: ApplyPlayAction_cases)
  case (close t)
  with ph show ?thesis by (simp add: settlement_ok_def)
next
  case pass
  with ph show ?thesis by (simp add: settlement_ok_def advance_def)
next
  case (play t s6)
  from AfterPlayHand_frame [OF play(4)] obtain h pd where
    "s6 = (played_state P s a t)\<lparr>holds := h, played_deck := pd\<rparr>" by blast
  with play(5) ph show ?thesis
    by (simp add: settlement_ok_def advance_def played_state_def)
next
  case (out t s6 s7)
  from AfterPlayHand_frame [OF out(4)] obtain h pd where
    s6: "s6 = (played_state P s a t)\<lparr>holds := h, played_deck := pd\<rparr>" by blast
  define u where "u = s6\<lparr>final_winner := current_player s6\<rparr>"
  from ok ph have d: "in_range (dizhu s) 3" and lr: "length (returns s) = 3"
    by (simp_all add: state_ok_def)
  from wf d have inv: "dizhu s \<noteq> kInvalidPlayer P"
    by (auto simp: wf_params_def in_range_def)
  have du: "dizhu u = dizhu s" "returns u = returns s"
    by (simp_all add: u_def s6 played_state_def)
  from out(5) have run: "ScoreUp P u = Inr s7" by (simp add: u_def)
  from ScoreUp_result [OF run] d inv lr du
  have s7: "s7 = u\<lparr>returns := returns s7\<rparr>"
    and v: "let paying = winning_bid u * 2 ^ nat (of_bool (is_spring u) + bombs_played u);
          dizhu_sign = (if final_winner u = dizhu u then 1 else - 1)
      in returns s7 ! nat (dizhu u) = dizhu_sign * 2 * paying \<and>
         returns s7 ! nat ((dizhu u + 1) smod 3) = - dizhu_sign * paying \<and>
         returns s7 ! nat ((dizhu u + 2) smod 3) = - dizhu_sign * paying \<and>
         sum_list (returns s7) = 0"
    by simp_all
  define r where "r = returns s7"
  have s0: "s0 = u\<lparr>returns := r, phase := kGameOver\<rparr>"
    using out(6) s7 by (simp add: r_def)
  have sp: "is_spring (u\<lparr>returns := r, phase := kGameOver, history := history u @ [a]\<rparr>) =
      is_spring u"
    by (simp add: is_spring_def)
  from v show ?thesis
    unfolding s0 settlement_ok_def r_def [symmetric]
    by (simp add: sp Let_def)
qed

lemma reachable_settlement_ok:
  assumes wf: "wf_params P" and r: "reachable P s"
  shows "settlement_ok P s"
  using r
proof (induction rule: reachable.induct)
  case reachable_init
  show ?case by (simp add: settlement_ok_def NewInitialState_def)
next
  case (reachable_step s acts a s')
  from ApplyAction_Inr [OF reachable_step.hyps(4)] obtain s0 where
    d: "DoApplyAction P s a = Inr s0" and s': "s' = s0\<lparr>history := history s0 @ [a]\<rparr>" by blast
  note so = reachable_step.IH
  note ok = reachable_state_ok [OF wf reachable_step.hyps(1)]
  show ?case
  proof (cases "phase s")
    case kDeal
    with d have st: "ApplyDealAction P s a = Inr s0" by (simp add: DoApplyAction_def)
    from ok kDeal have z: "winning_bid s = 0" "num_passes s = 0" by (simp_all add: state_ok_def)
    from so kDeal have di: "dizhu s = kInvalidPlayer P" by (simp add: settlement_ok_def)
    from st have "phase s0 = kDeal \<or> phase s0 = kAuction"
      by (cases rule: ApplyDealAction_cases) (simp_all add: kDeal dealt_state_fields)
    moreover from st have "winning_bid s0 = 0 \<and> num_passes s0 = 0"
      by (cases rule: ApplyDealAction_cases) (simp_all add: z dealt_state_fields)
    moreover note ApplyDealAction_dizhu [OF st] di
    ultimately show ?thesis unfolding s' by (auto simp: settlement_ok_def)
  next
    case kAuction
    with d have st: "ApplyBiddingAction P s a = Inr s0" by (simp add: DoApplyAction_def)
    from reachable_step.hyps(2,3) kAuction have "a \<in> set (BiddingLegalActions P s)"
      by (simp add: LegalActions_def)
    from settlement_ok_bid_step [OF ok so kAuction this st] s' show ?thesis by simp
  next
    case kPlay
    with d have st: "ApplyPlayAction P s a = Inr s0" by (simp add: DoApplyAction_def)
    from settlement_ok_play_step [OF wf ok kPlay st] s' show ?thesis by simp
  next
    case kGameOver
    with d show ?thesis by (simp add: DoApplyAction_def)
  qed
qed

text \<open>
  Claim C1.  In every state that the host reaches with the phase GameOver and a decided
  landlord, the stake is \<open>paying = winning_bid * 2 ^ (is_spring + bombs_played)\<close>, the
  landlord's return is \<open>sign * 2 * paying\<close>, each of the other two seats has
  \<open>- sign * paying\<close>, where \<open>sign\<close> is +1 if the final winner is the landlord and -1
  otherwise, and the three returns sum to exactly 0.  The settlement itself returns
  with these values whenever the landlord sits in seat 0, 1 or 2 and the doubled stake
  fits a 32-bit \<open>int\<close>.
\<close>

theorem C1_game_over_returns:
  "(wf_params P \<and> reachable P s \<and> phase s = kGameOver \<and> dizhu s \<noteq> kInvalidPlayer P \<longrightarrow>
      (let paying = winning_bid s * 2 ^ nat (of_bool (is_spring s) + bombs_played s);
           dizhu_sign = (if final_winner s = dizhu s then 1 else - 1)
       in returns s ! nat (dizhu s) = dizhu_sign * 2 * paying \<and>
          returns s ! nat ((dizhu s + 1) smod 3) = - dizhu_sign * paying \<and>
          returns s ! nat ((dizhu s + 2) smod 3) = - dizhu_sign * paying \<and>
          sum_list (returns s) = 0)) \<and>
   (dizhu t \<in> {0, 1, 2} \<and> dizhu t \<noteq> kInvalidPlayer P \<and> length (returns t) = 3 \<and>
    length (players_hands_played t) = 3 \<and> 0 \<le> winning_bid t \<and> 0 \<le> bombs_played t \<and>
    winning_bid t * 2 ^ (nat (bombs_played t) + 2) < 2 ^ 31 \<longrightarrow>
      (\<exists>t'. ScoreUp P t = Inr t' \<and>
         (let paying = winning_bid t * 2 ^ nat (of_bool (is_spring t) + bombs_played t);
              dizhu_sign = (if final_winner t = dizhu t then 1 else - 1)
          in returns t' ! nat (dizhu t) = dizhu_sign * 2 * paying \<and>
             returns t' ! nat ((dizhu t + 1) smod 3) = - dizhu_sign * paying \<and>
             returns t' ! nat ((dizhu t + 2) smod 3) = - dizhu_sign * paying \<and>
             sum_list (returns t') = 0)))"
proof (intro conjI impI)
  assume a: "wf_params P \<and> reachable P s \<and> phase s = kGameOver \<and> dizhu s \<noteq> kInvalidPlayer P"
  then have "settlement_ok P s" by (simp add: reachable_settlement_ok)
  with a show "let paying = winning_bid s * 2 ^ nat (of_bool (is_spring s) + bombs_played s);
           dizhu_sign = (if final_winner s = dizhu s then 1 else - 1)
       in returns s ! nat (dizhu s) = dizhu_sign * 2 * paying \<and>
          returns s ! nat ((dizhu s + 1) smod 3) = - dizhu_sign * paying \<and>
          returns s ! nat ((dizhu s + 2) smod 3) = - dizhu_sign * paying \<and>
          sum_list (returns s) = 0"
    by (simp add: settlement_ok_def)
next
  assume b: "dizhu t \<in> {0, 1, 2} \<and> dizhu t \<noteq> kInvalidPlayer P \<and> length (returns t) = 3 \<and>
    length (players_hands_played t) = 3 \<and> 0 \<le> winning_bid t \<and> 0 \<le> bombs_played t \<and>
    winning_bid t * 2 ^ (nat (bombs_played t) + 2) < 2 ^ 31"
  then show "\<exists>t'. ScoreUp P t = Inr t' \<and>
         (let paying = winning_bid t * 2 ^ nat (of_bool (is_spring t) + bombs_played t);
              dizhu_sign = (if final_winner t = dizhu t then 1 else - 1)
          in returns t' ! nat (dizhu t) = dizhu_sign * 2 * paying \<and>
             returns t' ! nat ((dizhu t + 1) smod 3) = - dizhu_sign * paying \<and>
             returns t' ! nat ((dizhu t + 2) smod 3) = - dizhu_sign * paying \<and>
             sum_list (returns t') = 0)"
    by (intro ScoreUp_returns) simp_all
qed

theorem C1_game_over_returns_witness:
  "(\<exists>s. play_legal std_params (NewInitialState std_params)
           (deal_actions @ farmer_wins_actions) = Inr s \<and>
        reachable std_params s \<and> phase s = kGameOver \<and> dizhu s = 0 \<and> final_winner s = 1 \<and>
        winning_bid s = 3 \<and> bombs_played s = 0 \<and> \<not> is_spring s \<and>
        returns s ! 0 = - 6 \<and> returns s ! 1 = 3 \<and> returns s ! 2 = 3 \<and>
        sum_list (returns s) = 0) \<and>
   dizhu scenario_E = 0 \<and> winning_bid scenario_E = 3 \<and> bombs_played scenario_E = 1 \<and>
   \<not> is_spring scenario_E \<and>
   (\<exists>s'. ScoreUp std_params scenario_E = Inr s' \<and>
      returns s' ! 0 = 12 \<and> returns s' ! 1 = - 6 \<and> returns s' ! 2 = - 6 \<and>
      sum_list (returns s') = 0)"
proof -
  from farmer_wins_final obtain s where
    run: "play_legal std_params (NewInitialState std_params)
            (deal_actions @ farmer_wins_actions) = Inr s"
    and v: "phase s = kGameOver" "dizhu s = 0" "final_winner s = 1" "winning_bid s = 3"
      "bombs_played s = 0" "players_hands_played s = [2, 17, 0]"
    by blast
  have reach: "reachable std_params s"
    by (rule play_legal_reachable [OF reachable_init run])
  have sp: "\<not> is_spring s" using v by (simp add: is_spring_def smod3_vals)
  have inv: "dizhu s \<noteq> kInvalidPlayer std_params" using v by (simp add: std_params_def)
  have h: "dizhu scenario_E \<in> {0, 1, 2}" "dizhu scenario_E \<noteq> kInvalidPlayer std_params"
    "length (returns scenario_E) = 3" "length (players_hands_played scenario_E) = 3"
    "0 \<le> winning_bid scenario_E" "0 \<le> bombs_played scenario_E"
    "winning_bid scenario_E * 2 ^ (nat (bombs_played scenario_E) + 2) < 2 ^ 31"
    by (simp_all add: scenario_E_def NewInitialState_def std_params_def)
  have w: "dizhu scenario_E = 0" "winning_bid scenario_E = 3" "bombs_played scenario_E = 1"
    "final_winner scenario_E = 0" "\<not> is_spring scenario_E"
    by (simp_all add: scenario_E_def NewInitialState_def is_spring_def smod3_vals)
  note c = C1_game_over_returns [of std_params s scenario_E]
  from c wf_std_params reach v sp inv have
    "returns s ! 0 = - 6 \<and> returns s ! 1 = 3 \<and> returns s ! 2 = 3 \<and> sum_list (returns s) = 0"
    by (simp add: smod3_vals)
  moreover from c h w have "\<exists>s'. ScoreUp std_params scenario_E = Inr s' \<and>
      returns s' ! 0 = 12 \<and> returns s' ! 1 = - 6 \<and> returns s' ! 2 = - 6 \<and>
      sum_list (returns s') = 0"
    by (simp add: smod3_vals)
  ultimately show ?thesis using run reach v sp w by blast
qed

end
